theory Spec2Isabelle
  imports Complex_Main "HOL-Library.Sublist"
begin

section \<open>Python values used by the sources\<close>

text \<open>
  The exceptions the modelled code can raise. A function that can raise returns
  \<open>exn + 'a\<close>, with \<open>Inl\<close> for the exception.
\<close>

datatype exn = IndexError | KeyError | ValueError | TypeError

text \<open>\<open>sep.join(xs)\<close> on a list of strings.\<close>

fun join :: "string \<Rightarrow> string list \<Rightarrow> string" where
  "join sep [] = []"
| "join sep [x] = x"
| "join sep (x # y # ys) = x @ sep @ join sep (y # ys)"

text \<open>
  \<open>s.replace(old, new)\<close>: every non-overlapping occurrence of \<open>old\<close>, scanned from
  the left, becomes \<open>new\<close>. With an empty \<open>old\<close> Python puts \<open>new\<close> before every
  character and at the end.
\<close>

fun replace_from :: "string \<Rightarrow> string \<Rightarrow> string \<Rightarrow> string" where
  "replace_from [] old new = []"
| "replace_from (c # cs) old new =
     (if prefix old (c # cs)
      then new @ replace_from (drop (length old - 1) cs) old new
      else c # replace_from cs old new)"

definition replace :: "string \<Rightarrow> string \<Rightarrow> string \<Rightarrow> string" where
  "replace s old new =
     (if old = [] then new @ concat (map (\<lambda>c. c # new) s) else replace_from s old new)"

section \<open>The description renderer (predictors.py, make\_srl\_string)\<close>

text \<open>
  The state of the scan is the pair \<open>(window, chunk)\<close>. \<open>flush\<close> is the
  \<open>if chunk: window.append("[" + " ".join(chunk) + "]"); chunk = []\<close> of the source.
\<close>

definition flush :: "string list \<times> string list \<Rightarrow> string list \<times> string list" where
  "flush st =
     (case st of (window, chunk) \<Rightarrow>
        if chunk \<noteq> [] then (window @ [''['' @ join '' '' chunk @ '']''], []) else (window, chunk))"

text \<open>One iteration of \<open>for (token, tag) in zip(words, tags)\<close>.\<close>

definition srl_step ::
  "string \<Rightarrow> string list \<times> string list \<Rightarrow> string \<times> string \<Rightarrow> string list \<times> string list" where
  "srl_step frame st wt =
     (case wt of (token, tag) \<Rightarrow>
        if prefix ''I-'' tag then (fst st, snd st @ [token])
        else
          (case flush st of (window, chunk) \<Rightarrow>
             if prefix ''B-'' tag
             then (window, chunk @ [drop 2 (replace tag ''V'' frame) @ '': '' @ token])
             else if tag = ''O'' then (window @ [token], chunk)
             else (window, chunk)))"

definition make_srl_string :: "string list \<Rightarrow> string list \<Rightarrow> string \<Rightarrow> string" where
  "make_srl_string words tags frame =
     join '' '' (fst (flush (foldl (srl_step frame) ([], []) (zip words tags))))"

section \<open>The model's decoding (models.py)\<close>

subsection \<open>Containers and array operations\<close>

text \<open>
  A list comprehension whose element expression can raise: the elements are computed
  from left to right and the first exception ends the comprehension.
\<close>

fun traverse :: "('a \<Rightarrow> exn + 'b) \<Rightarrow> 'a list \<Rightarrow> exn + 'b list" where
  "traverse f [] = Inr []"
| "traverse f (x # xs) =
     (case f x of
        Inl e \<Rightarrow> Inl e
      | Inr y \<Rightarrow> (case traverse f xs of Inl e \<Rightarrow> Inl e | Inr ys \<Rightarrow> Inr (y # ys)))"

text \<open>\<open>xs[i]\<close> for an index that is not negative.\<close>

definition getitem :: "'a list \<Rightarrow> nat \<Rightarrow> exn + 'a" where
  "getitem xs i = (if i < length xs then Inr (xs ! i) else Inl IndexError)"

text \<open>
  The vocabulary is a collaborator of the model (AllenNLP's \<open>Vocabulary\<close>); only the
  namespace \<open>frames_labels\<close> is read. It is represented by the list of its labels in
  index order: \<open>get_token_to_index_vocabulary\<close> has the labels of the list as keys,
  \<open>get_token_index\<close> is the position of a label and \<open>get_token_from_index\<close> the label
  at a position. A label namespace has no out-of-vocabulary entry, so both lookups
  raise KeyError on a miss.
\<close>

fun get_token_index :: "string list \<Rightarrow> string \<Rightarrow> exn + nat" where
  "get_token_index [] l = Inl KeyError"
| "get_token_index (t # ts) l =
     (if t = l then Inr 0
      else (case get_token_index ts l of Inl e \<Rightarrow> Inl e | Inr n \<Rightarrow> Inr (Suc n)))"

definition get_token_from_index :: "string list \<Rightarrow> nat \<Rightarrow> exn + string" where
  "get_token_from_index vocab i = (if i < length vocab then Inr (vocab ! i) else Inl KeyError)"

text \<open>
  \<open>argmax\<close> over one row: a left-to-right scan that moves to a new position only on a
  strictly greater entry, so the first maximal position is returned; an empty row
  raises. Scores are taken from any linear order (the floating-point values of the
  source without NaN).
\<close>

fun argmax_loop :: "'p::linorder list \<Rightarrow> nat \<Rightarrow> nat \<Rightarrow> 'p \<Rightarrow> nat" where
  "argmax_loop [] i best bv = best"
| "argmax_loop (x # xs) i best bv =
     (if bv < x then argmax_loop xs (Suc i) i x else argmax_loop xs (Suc i) best bv)"

definition argmax :: "'p::linorder list \<Rightarrow> exn + nat" where
  "argmax xs = (case xs of [] \<Rightarrow> Inl ValueError | x # r \<Rightarrow> Inr (argmax_loop r 1 0 x))"

text \<open>\<open>np.take(fp, cl)\<close>: the entries of \<open>fp\<close> at the positions \<open>cl\<close>.\<close>

definition np_take :: "'p list \<Rightarrow> nat list \<Rightarrow> exn + 'p list" where
  "np_take fp cl = traverse (getitem fp) cl"

text \<open>
  \<open>x[indicator == 1]\<close> for \<open>x\<close> of shape (batch, tokens, ...) and \<open>indicator\<close> of
  shape (batch, tokens): the entries of \<open>x\<close> at the marked positions, instance after
  instance, as one flat sequence of rows.
\<close>

definition mask_select :: "'a list list \<Rightarrow> nat list list \<Rightarrow> 'a list" where
  "mask_select x indicator =
     concat (map (\<lambda>(row, irow). map fst (filter (\<lambda>(e, b). b = 1) (zip row irow)))
                 (zip x indicator))"

subsection \<open>Data\<close>

record metadata =
  m_words :: "string list"
  m_verb :: "string option"
  m_offsets :: "nat list"
  m_lemmas :: "string list"
  m_verb_index :: "nat option"
  m_gold_tags :: "string list"

text \<open>
  The output dictionary of \<open>forward\<close>. The key \<open>lemma\<close> is the field \<open>lemma_list\<close>;
  \<open>tags\<close> and \<open>frame_tags\<close> are absent until a decoding step sets them. The three loss
  entries are floating-point numbers that no decoding step reads; they are left out.
\<close>

record 'p output_dict =
  logits :: "'p list list list"
  frame_logits :: "'p list list"
  class_probabilities :: "'p list list list"
  frame_probabilities :: "'p list list"
  mask :: "nat list list"
  words :: "string list list"
  lemma_list :: "string list"
  verb :: "string option list"
  wordpiece_offsets :: "nat list list"
  tags :: "string list list option"
  frame_tags :: "string list option"

text \<open>
  The collaborators \<open>forward\<close> and \<open>decode\<close> call: the encoder and its layers, the
  \<open>decode\<close> of the parent class and the conversion of BIO tags to the CoNLL format.
\<close>

record ('t, 'e, 'p) network =
  get_text_field_mask :: "'t \<Rightarrow> nat list list"
  bert_model :: "'t \<Rightarrow> nat list list \<Rightarrow> nat list list \<Rightarrow> 'e list list"
  embedding_dropout :: "'e list list \<Rightarrow> 'e list list"
  tag_projection_layer :: "'e \<Rightarrow> 'p list"
  frame_projection_layer :: "'e \<Rightarrow> 'p list"
  softmax :: "'p list \<Rightarrow> 'p list"
  super_decode :: "'p output_dict \<Rightarrow> exn + 'p output_dict"
  convert_bio_tags_to_conll_format :: "string list \<Rightarrow> string list"

record settings =
  ignore_span_metric :: bool
  has_span_metric :: bool
  training :: bool

text \<open>
  The two metric accumulators are external; what the model does to them is call them.
  Their state is the sequence of argument tuples they have received.
\<close>

record 'p metrics =
  span_metric_calls ::
    "(nat option list \<times> string list list \<times> string list list \<times> string list list) list"
  f1_frame_metric_calls :: "('p list list \<times> nat list) list"

subsection \<open>decode\_frames and decode\<close>

text \<open>The body of the loop over \<open>zip(candidate_labels_ids, frame_probabilities)\<close>.\<close>

definition frame_prediction :: "nat list \<Rightarrow> 'p::linorder list \<Rightarrow> exn + nat" where
  "frame_prediction cl fp =
     (case np_take fp cl of
        Inl e \<Rightarrow> Inl e
      | Inr fp_candidates \<Rightarrow>
          if length fp_candidates > 0
          then (case argmax fp_candidates of Inl e \<Rightarrow> Inl e | Inr k \<Rightarrow> getitem cl k)
          else argmax fp)"

text \<open>
  One entry of \<open>candidate_labels_ids\<close>: the indices of the candidates that are labels
  of the vocabulary.
\<close>

definition candidate_ids :: "string list \<Rightarrow> string list \<Rightarrow> exn + nat list" where
  "candidate_ids vocab cl = traverse (get_token_index vocab) (filter (\<lambda>l. l \<in> set vocab) cl)"

definition decode_frames ::
  "string list \<Rightarrow> (string \<rightharpoonup> string list) \<Rightarrow> ('p::linorder) output_dict \<Rightarrow> bool
     \<Rightarrow> exn + 'p output_dict" where
  "decode_frames vocab lemma_frame_dict od restrict =
     (if \<not> restrict then
        (case traverse argmax (frame_probabilities od) of
           Inl e \<Rightarrow> Inl e
         | Inr frame_predictions \<Rightarrow>
             (case traverse (get_token_from_index vocab) frame_predictions of
                Inl e \<Rightarrow> Inl e
              | Inr labels \<Rightarrow> Inr (od\<lparr>frame_tags := Some labels\<rparr>)))
      else
        (let candidate_labels =
               map (\<lambda>l. case lemma_frame_dict l of None \<Rightarrow> [] | Some cl \<Rightarrow> cl) (lemma_list od)
         in case traverse (candidate_ids vocab) candidate_labels of
              Inl e \<Rightarrow> Inl e
            | Inr candidate_labels_ids \<Rightarrow>
                (case traverse (\<lambda>(cl, fp). frame_prediction cl fp)
                        (zip candidate_labels_ids (frame_probabilities od)) of
                   Inl e \<Rightarrow> Inl e
                 | Inr frame_predictions \<Rightarrow>
                     (case traverse (get_token_from_index vocab) frame_predictions of
                        Inl e \<Rightarrow> Inl e
                      | Inr labels \<Rightarrow> Inr (od\<lparr>frame_tags := Some labels\<rparr>)))))"

definition decode ::
  "('t, 'e, 'p::linorder) network \<Rightarrow> string list \<Rightarrow> (string \<rightharpoonup> string list)
     \<Rightarrow> 'p output_dict \<Rightarrow> bool \<Rightarrow> exn + 'p output_dict" where
  "decode net vocab lemma_frame_dict od restrict =
     (case super_decode net od of
        Inl e \<Rightarrow> Inl e
      | Inr od' \<Rightarrow> decode_frames vocab lemma_frame_dict od' restrict)"

subsection \<open>forward\<close>

text \<open>
  \<open>forward\<close> with its metric updates. The decoding for the span metric works on the
  output dictionary itself: it sets \<open>frame_tags\<close> and the \<open>pop\<close> removes \<open>tags\<close>.
\<close>

definition forward ::
  "('t, 'e, 'p::linorder) network \<Rightarrow> settings \<Rightarrow> string list \<Rightarrow> (string \<rightharpoonup> string list)
     \<Rightarrow> 'p metrics \<Rightarrow> 't \<Rightarrow> nat list list \<Rightarrow> nat list list \<Rightarrow> metadata list
     \<Rightarrow> nat list list option \<Rightarrow> nat list list option
     \<Rightarrow> exn + ('p output_dict \<times> 'p metrics)" where
  "forward net cfg vocab lemma_frame_dict ms tokens verb_indicator frame_indicator md
     gold_tags gold_frame_tags =
     (let msk = get_text_field_mask net tokens;
          bert_embeddings = bert_model net tokens verb_indicator msk;
          embedded_text_input = embedding_dropout net bert_embeddings;
          verbs_embeddings = mask_select embedded_text_input frame_indicator;
          lgts = map (map (tag_projection_layer net)) embedded_text_input;
          frame_lgts = map (frame_projection_layer net) verbs_embeddings;
          class_probs = map (map (softmax net)) lgts;
          frame_probs = map (softmax net) frame_lgts
      in if md = [] then Inl ValueError
         else
           (let output_dict =
                  \<lparr>logits = lgts, frame_logits = frame_lgts,
                   class_probabilities = class_probs, frame_probabilities = frame_probs,
                   mask = msk, words = map m_words md,
                   lemma_list = concat (map m_lemmas md), verb = map m_verb md,
                   wordpiece_offsets = map m_offsets md, tags = None, frame_tags = None\<rparr>
            in case gold_tags of
                 None \<Rightarrow> Inr (output_dict, ms)
               | Some gold \<Rightarrow>
                   (case gold_frame_tags of
                      None \<Rightarrow> Inl TypeError
                    | Some gold_frames \<Rightarrow>
                        (let frame_tags_filtered = mask_select gold_frames frame_indicator
                         in if \<not> ignore_span_metric cfg \<and> has_span_metric cfg \<and> \<not> training cfg
                            then
                              (case decode net vocab lemma_frame_dict output_dict False of
                                 Inl e \<Rightarrow> Inl e
                               | Inr decoded \<Rightarrow>
                                   (case tags decoded of
                                      None \<Rightarrow> Inl KeyError
                                    | Some batch_bio_predicted_tags \<Rightarrow>
                                        Inr (decoded\<lparr>tags := None\<rparr>,
                                             ms\<lparr>span_metric_calls := span_metric_calls ms @
                                                  [(map m_verb_index md, map m_words md,
                                                    map (convert_bio_tags_to_conll_format net)
                                                      batch_bio_predicted_tags,
                                                    map (convert_bio_tags_to_conll_format net)
                                                      (map m_gold_tags md))],
                                                f1_frame_metric_calls := f1_frame_metric_calls ms @
                                                  [(frame_lgts, frame_tags_filtered)]\<rparr>)))
                            else
                              Inr (output_dict,
                                   ms\<lparr>f1_frame_metric_calls := f1_frame_metric_calls ms @
                                        [(frame_lgts, frame_tags_filtered)]\<rparr>)))))"

text \<open>
  What the framework's \<open>forward_on_instances\<close> computes for a batch without gold labels:
  \<open>forward\<close>, then \<open>decode\<close> with its default \<open>restrict = True\<close>.
\<close>

definition forward_and_decode ::
  "('t, 'e, 'p::linorder) network \<Rightarrow> settings \<Rightarrow> string list \<Rightarrow> (string \<rightharpoonup> string list)
     \<Rightarrow> 'p metrics \<Rightarrow> 't \<Rightarrow> nat list list \<Rightarrow> nat list list \<Rightarrow> metadata list
     \<Rightarrow> exn + 'p output_dict" where
  "forward_and_decode net cfg vocab lemma_frame_dict ms tokens verb_indicator frame_indicator md =
     (case forward net cfg vocab lemma_frame_dict ms tokens verb_indicator frame_indicator md
             None None of
        Inl e \<Rightarrow> Inl e
      | Inr (output_dict, ms') \<Rightarrow> decode net vocab lemma_frame_dict output_dict True)"

text \<open>
  A network for evaluating \<open>forward\<close> on concrete batches: the tokens are their own
  embeddings, every layer is the identity and the parent's \<open>decode\<close> tags every word
  with O.
\<close>

definition identity_network :: "(rat list list list, rat list, rat) network" where
  "identity_network =
     \<lparr>get_text_field_mask = map (map (\<lambda>e. 1)),
      bert_model = (\<lambda>tokens verb_indicator msk. tokens),
      embedding_dropout = (\<lambda>x. x),
      tag_projection_layer = (\<lambda>e. e),
      frame_projection_layer = (\<lambda>e. e),
      softmax = (\<lambda>row. row),
      super_decode = (\<lambda>od. Inr (od\<lparr>tags := Some (map (map (\<lambda>w. ''O'')) (words od))\<rparr>)),
      convert_bio_tags_to_conll_format = (\<lambda>ts. ts)\<rparr>"

definition instance_metadata :: "string list \<Rightarrow> string list \<Rightarrow> metadata" where
  "instance_metadata ws ls =
     \<lparr>m_words = ws, m_verb = None, m_offsets = [], m_lemmas = ls, m_verb_index = None,
      m_gold_tags = []\<rparr>"

section \<open>The predictor (predictors.py)\<close>

subsection \<open>Data\<close>

text \<open>A token of the tokenizer: its text and its part-of-speech category.\<close>

record token =
  tok_text :: string
  pos_tag :: string

text \<open>What the model returns for one instance, as far as the predictor reads it.\<close>

record model_output =
  out_words :: "string list"
  out_verb :: string
  out_tags :: "string list"
  out_frame_tags :: string

record verb_dict =
  vd_verb :: string
  vd_description :: string
  vd_tags :: "string list"
  vd_frame :: string

text \<open>
  The entry \<open>words\<close> of a result holds either the tokens of the tokenizer or the
  strings of a model output; \<open>sanitize\<close> turns a token into its text.
\<close>

datatype words_value = Tokens "token list" | Strings "string list"

record return_dict =
  rd_verbs :: "verb_dict list"
  rd_words :: "words_value option"

fun sanitize_words :: "words_value \<Rightarrow> words_value" where
  "sanitize_words (Tokens ts) = Strings (map tok_text ts)"
| "sanitize_words (Strings ws) = Strings ws"

definition sanitize :: "return_dict list \<Rightarrow> return_dict list" where
  "sanitize ds = map (\<lambda>d. d\<lparr>rd_words := map_option sanitize_words (rd_words d)\<rparr>) ds"

subsection \<open>Splitting a sentence into instances\<close>

text \<open>
  \<open>tti\<close> is the dataset reader's \<open>text_to_instance\<close>. The list of instances is built
  by appending, in the order of the tokens.
\<close>

definition tokens_to_instances :: "(token list \<Rightarrow> nat list \<Rightarrow> 'i) \<Rightarrow> token list \<Rightarrow> 'i list" where
  "tokens_to_instances tti tokens =
     (let words = map tok_text tokens
      in concat (map (\<lambda>(i, word).
                        if pos_tag word = ''VERB''
                        then [tti tokens ((map (\<lambda>_. 0) words)[i := 1])]
                        else [])
                     (enumerate 0 tokens)))"

text \<open>
  The inherited \<open>_sentence_to_srl_instances\<close>: tokenize the sentence of the request
  and split the tokens. A request is represented by its sentence.
\<close>

definition sentence_to_srl_instances ::
  "(string \<Rightarrow> token list) \<Rightarrow> (token list \<Rightarrow> nat list \<Rightarrow> 'i) \<Rightarrow> string \<Rightarrow> 'i list" where
  "sentence_to_srl_instances tokenize tti sentence = tokens_to_instances tti (tokenize sentence)"

subsection \<open>Batching\<close>

text \<open>
  \<open>group_by_count(iterable, count, default_value)\<close>: consecutive groups of \<open>count\<close>
  elements, the last one filled up with the default value; no group at all for an
  empty list or a count of zero.
\<close>

function group_by_count :: "'a list \<Rightarrow> nat \<Rightarrow> 'a \<Rightarrow> 'a list list" where
  "group_by_count xs count default_value =
     (if count = 0 \<or> xs = [] then []
      else (take count xs @ replicate (count - length (take count xs)) default_value)
             # group_by_count (drop count xs) count default_value)"
  by pat_completeness auto
termination
  by (relation "measure (\<lambda>(xs, count, d). length xs)") auto

declare group_by_count.simps [simp del]

text \<open>
  The batches handed to the model: the groups, with the padding removed from the last
  one. \<open>batched_instances[-1]\<close> raises on an empty list of groups.
\<close>

definition make_batches :: "'i list \<Rightarrow> nat \<Rightarrow> exn + 'i option list list" where
  "make_batches flattened_instances batch_size =
     (let batched_instances = group_by_count (map Some flattened_instances) batch_size None
      in if batched_instances = [] then Inl IndexError
         else Inr (butlast batched_instances @
                   [filter (\<lambda>instance. instance \<noteq> None) (last batched_instances)]))"

text \<open>
  Running the model on the batches; \<open>fwd\<close> is the model's \<open>forward_on_instances\<close>.
\<close>

definition forward_on_batches :: "('i option list \<Rightarrow> model_output list) \<Rightarrow> 'i option list list \<Rightarrow> model_output list" where
  "forward_on_batches fwd batched_instances = concat (map fwd batched_instances)"

subsection \<open>Regrouping\<close>

definition make_verb_dict :: "model_output \<Rightarrow> verb_dict" where
  "make_verb_dict out =
     \<lparr>vd_verb = out_verb out,
      vd_description = make_srl_string (out_words out) (out_tags out) (out_frame_tags out),
      vd_tags = out_tags out,
      vd_frame = out_frame_tags out\<rparr>"

text \<open>\<open>for _ in range(verb_count)\<close>, on the result of one sentence.\<close>

fun verb_loop :: "model_output list \<Rightarrow> nat \<Rightarrow> nat \<times> return_dict \<Rightarrow> exn + nat \<times> return_dict" where
  "verb_loop outputs 0 st = Inr st"
| "verb_loop outputs (Suc n) st =
     (case st of (output_index, d) \<Rightarrow>
        (case getitem outputs output_index of
           Inl e \<Rightarrow> Inl e
         | Inr out \<Rightarrow>
             verb_loop outputs n
               (Suc output_index,
                d\<lparr>rd_words := Some (Strings (out_words out)),
                  rd_verbs := rd_verbs d @ [make_verb_dict out]\<rparr>)))"

text \<open>\<open>for sentence_index, verb_count in enumerate(verbs_per_sentence)\<close>.\<close>

fun sentence_loop ::
  "(string \<Rightarrow> token list) \<Rightarrow> string list \<Rightarrow> model_output list \<Rightarrow> (nat \<times> nat) list
     \<Rightarrow> nat \<times> return_dict list \<Rightarrow> exn + return_dict list" where
  "sentence_loop tokenize inputs outputs [] st = Inr (snd st)"
| "sentence_loop tokenize inputs outputs ((sentence_index, verb_count) # rest) st =
     (case st of (output_index, return_dicts) \<Rightarrow>
        if verb_count = 0 then
          (case getitem inputs sentence_index of
             Inl e \<Rightarrow> Inl e
           | Inr x \<Rightarrow>
               (case getitem return_dicts sentence_index of
                  Inl e \<Rightarrow> Inl e
                | Inr d \<Rightarrow>
                    sentence_loop tokenize inputs outputs rest
                      (output_index,
                       return_dicts[sentence_index := d\<lparr>rd_words := Some (Tokens (tokenize x))\<rparr>])))
        else
          (case getitem return_dicts sentence_index of
             Inl e \<Rightarrow> Inl e
           | Inr d \<Rightarrow>
               (case verb_loop outputs verb_count (output_index, d) of
                  Inl e \<Rightarrow> Inl e
                | Inr (output_index', d') \<Rightarrow>
                    sentence_loop tokenize inputs outputs rest
                      (output_index', return_dicts[sentence_index := d']))))"

subsection \<open>predict\_batch\_json\<close>

definition predict_batch_json ::
  "(string \<Rightarrow> token list) \<Rightarrow> (token list \<Rightarrow> nat list \<Rightarrow> 'i) \<Rightarrow> ('i option list \<Rightarrow> model_output list)
     \<Rightarrow> string list \<Rightarrow> exn + return_dict list" where
  "predict_batch_json tokenize tti fwd inputs =
     (let batch_size = length inputs;
          instances_per_sentence = map (sentence_to_srl_instances tokenize tti) inputs;
          flattened_instances = concat instances_per_sentence
      in if flattened_instances = []
         then Inr (sanitize (map (\<lambda>x. \<lparr>rd_verbs = [], rd_words = Some (Tokens (tokenize x))\<rparr>) inputs))
         else
           (case make_batches flattened_instances batch_size of
              Inl e \<Rightarrow> Inl e
            | Inr batched_instances \<Rightarrow>
                (let outputs = forward_on_batches fwd batched_instances;
                     verbs_per_sentence = map length instances_per_sentence;
                     return_dicts = map (\<lambda>x. \<lparr>rd_verbs = [], rd_words = None\<rparr>) inputs
                 in case sentence_loop tokenize inputs outputs
                           (enumerate 0 verbs_per_sentence) (0, return_dicts) of
                      Inl e \<Rightarrow> Inl e
                    | Inr ds \<Rightarrow> Inr (sanitize ds))))"

subsection \<open>Collaborators for evaluating the predictor\<close>

text \<open>
  A tokenizer that knows one sentence with two verbs and takes any other sentence as a
  single noun, a dataset reader that keeps the words and the verb labels, and a model
  that tags the marked word as the predicate of the frame MOVE.
\<close>

definition example_tokenize :: "string \<Rightarrow> token list" where
  "example_tokenize sentence =
     (if sentence = ''run eat''
      then [\<lparr>tok_text = ''run'', pos_tag = ''VERB''\<rparr>, \<lparr>tok_text = ''eat'', pos_tag = ''VERB''\<rparr>]
      else [\<lparr>tok_text = sentence, pos_tag = ''NOUN''\<rparr>])"

definition example_text_to_instance :: "token list \<Rightarrow> nat list \<Rightarrow> string list \<times> nat list" where
  "example_text_to_instance tokens verb_labels = (map tok_text tokens, verb_labels)"

definition example_forward_on_instances ::
  "(string list \<times> nat list) option list \<Rightarrow> model_output list" where
  "example_forward_on_instances batch =
     map (\<lambda>inst. case inst of
                   None \<Rightarrow> \<lparr>out_words = [], out_verb = [], out_tags = [], out_frame_tags = []\<rparr>
                 | Some (ws, verb_labels) \<Rightarrow>
                     \<lparr>out_words = ws,
                      out_verb = concat (map (\<lambda>(w, v). if v = 1 then w else []) (zip ws verb_labels)),
                      out_tags = map (\<lambda>v. if v = 1 then ''B-V'' else ''O'') verb_labels,
                      out_frame_tags = ''MOVE''\<rparr>)
         batch"
section \<open>Properties of the renderer\<close>

text \<open>
  C9. On the words The, cat, sees, the, mouse with the tags B-ARG0, I-ARG0, B-V, B-ARG1,
  I-ARG1 and the frame SEE, the renderer returns exactly
  \<open>[ARG0: The cat] [SEE: sees] [ARG1: the mouse]\<close>.
\<close>

theorem make_srl_string_simple_case:
  "make_srl_string [''The'', ''cat'', ''sees'', ''the'', ''mouse'']
     [''B-ARG0'', ''I-ARG0'', ''B-V'', ''B-ARG1'', ''I-ARG1''] ''SEE''
   = ''[ARG0: The cat] [SEE: sees] [ARG1: the mouse]''"
  by (simp add: make_srl_string_def srl_step_def flush_def replace_def)

text \<open>
  C3. The claim: for a word whose tag starts with B-, the frame label replaces the role
  label exactly when the role label is the literal V, and every other B- tag keeps its
  role label unmodified. The source calls \<open>tag.replace("V", frame)\<close>, which rewrites
  every V of the tag: on the adverbial role ARGM-ADV the rendered role label is
  ARGM-ADLEAVE, not ARGM-ADV.
\<close>

theorem make_srl_string_replaces_every_V:
  "make_srl_string [''Probably'', ''he'', ''left''] [''B-ARGM-ADV'', ''B-ARG0'', ''B-V''] ''LEAVE''
     = ''[ARGM-ADLEAVE: Probably] [ARG0: he] [LEAVE: left]''"
  by (simp add: make_srl_string_def srl_step_def flush_def replace_def)

lemma srl_step_other:
  assumes "\<not> prefix ''I-'' tag" and "\<not> prefix ''B-'' tag" and "tag \<noteq> ''O''"
  shows "srl_step frame st (w, tag) = flush st"
  using assms by (simp add: srl_step_def split: prod.splits)

text \<open>
  C10. A word whose tag neither starts with I- nor with B- nor equals O flushes the open
  span buffer and contributes nothing else: the iteration on it is exactly \<open>flush\<close>, and
  the rendered string of a sentence that contains such a word is the one obtained by
  scanning the words before it, flushing, and scanning the words after it; the word
  itself does not occur in that expression.
\<close>

theorem make_srl_string_unknown_tag:
  assumes "\<not> prefix ''I-'' tag" and "\<not> prefix ''B-'' tag" and "tag \<noteq> ''O''"
    and "length ws = length ts"
  shows "srl_step frame st (w, tag) = flush st \<and>
         make_srl_string (ws @ w # ws') (ts @ tag # ts') frame =
           join '' '' (fst (flush (foldl (srl_step frame)
             (flush (foldl (srl_step frame) ([], []) (zip ws ts))) (zip ws' ts'))))"
  using assms by (simp add: make_srl_string_def srl_step_other)

theorem make_srl_string_unknown_tag_witness:
  "\<not> prefix ''I-'' ''X'' \<and> \<not> prefix ''B-'' ''X'' \<and> ''X'' \<noteq> ''O'' \<and>
   length [''He''] = length [''B-ARG0''] \<and>
   srl_step ''RUN'' ([], [''ARG0: He'']) (''well'', ''X'') = ([''[ARG0: He]''], []) \<and>
   make_srl_string [''He'', ''well'', ''ran''] [''B-ARG0'', ''X'', ''B-V''] ''RUN''
     = ''[ARG0: He] [RUN: ran]''"
  using make_srl_string_unknown_tag [of "''X''" "[''He'']" "[''B-ARG0'']" "''RUN''"
      "([], [''ARG0: He''])" "''well''" "[''ran'']" "[''B-V'']"]
  by (simp add: srl_step_def flush_def replace_def)

section \<open>Properties of the frame decoding\<close>

subsection \<open>Auxiliary facts\<close>

lemma traverse_list_all2:
  "traverse f xs = Inr ys \<longleftrightarrow> list_all2 (\<lambda>x y. f x = Inr y) xs ys"
proof (induction xs arbitrary: ys)
  case Nil
  show ?case by auto
next
  case (Cons x xs)
  show ?case
    by (cases ys) (auto simp: Cons.IH[symmetric] split: sum.splits)
qed

lemma traverse_nth:
  assumes "traverse f xs = Inr ys"
  shows "length ys = length xs" and "\<And>i. i < length xs \<Longrightarrow> f (xs ! i) = Inr (ys ! i)"
  using assms by (simp_all add: traverse_list_all2 list_all2_conv_all_nth)

lemma traverse_total:
  assumes "\<And>x. x \<in> set xs \<Longrightarrow> \<exists>y. f x = Inr y"
  shows "\<exists>ys. traverse f xs = Inr ys"
  using assms
proof (induction xs)
  case Nil
  show ?case by simp
next
  case (Cons x xs)
  obtain y where "f x = Inr y" using Cons.prems by auto
  moreover obtain ys where "traverse f xs = Inr ys" using Cons by auto
  ultimately show ?case by simp
qed

lemma argmax_loop_inv:
  assumes "best < length pre" and "bv = pre ! best"
    and "\<forall>j<length pre. pre ! j \<le> bv" and "\<forall>j<best. pre ! j < bv"
  shows "argmax_loop xs (length pre) best bv < length (pre @ xs) \<and>
         (\<forall>j<length (pre @ xs). (pre @ xs) ! j \<le> (pre @ xs) ! argmax_loop xs (length pre) best bv) \<and>
         (\<forall>j<argmax_loop xs (length pre) best bv.
            (pre @ xs) ! j < (pre @ xs) ! argmax_loop xs (length pre) best bv)"
  using assms
proof (induction xs arbitrary: pre best bv)
  case Nil
  then show ?case by simp
next
  case (Cons x xs)
  show ?case
  proof (cases "bv < x")
    case True
    have a: "length pre < length (pre @ [x])" by simp
    have b: "x = (pre @ [x]) ! length pre" by simp
    have c: "\<forall>j<length (pre @ [x]). (pre @ [x]) ! j \<le> x"
      using Cons.prems(3) True by (auto simp: nth_append less_Suc_eq intro: less_imp_le order.trans)
    have d: "\<forall>j<length pre. (pre @ [x]) ! j < x"
      using Cons.prems(3) True by (auto simp: nth_append intro: le_less_trans)
    from Cons.IH[OF a b c d] True show ?thesis by simp
  next
    case False
    have a: "best < length (pre @ [x])" using Cons.prems(1) by simp
    have b: "bv = (pre @ [x]) ! best" using Cons.prems(1,2) by (simp add: nth_append)
    have c: "\<forall>j<length (pre @ [x]). (pre @ [x]) ! j \<le> bv"
      using Cons.prems(3) False by (auto simp: nth_append less_Suc_eq)
    have d: "\<forall>j<best. (pre @ [x]) ! j < bv"
      using Cons.prems(1,4) by (auto simp: nth_append)
    from Cons.IH[OF a b c d] False show ?thesis by simp
  qed
qed

lemma argmax_first_max:
  assumes "argmax xs = Inr k"
  shows "k < length xs \<and> (\<forall>j<length xs. xs ! j \<le> xs ! k) \<and> (\<forall>j<k. xs ! j < xs ! k)"
proof (cases xs)
  case Nil
  with assms show ?thesis by (simp add: argmax_def)
next
  case (Cons x r)
  have "argmax_loop r (length [x]) 0 ([x] ! 0) < length ([x] @ r) \<and>
         (\<forall>j<length ([x] @ r). ([x] @ r) ! j \<le> ([x] @ r) ! argmax_loop r (length [x]) 0 ([x] ! 0)) \<and>
         (\<forall>j<argmax_loop r (length [x]) 0 ([x] ! 0).
            ([x] @ r) ! j < ([x] @ r) ! argmax_loop r (length [x]) 0 ([x] ! 0))"
    by (rule argmax_loop_inv) auto
  moreover have "k = argmax_loop r (length [x]) 0 ([x] ! 0)"
    using assms Cons by (simp add: argmax_def)
  ultimately show ?thesis using Cons by simp
qed

lemma argmax_total: "xs \<noteq> [] \<Longrightarrow> \<exists>k. argmax xs = Inr k"
  by (cases xs) (simp_all add: argmax_def)

lemma get_token_index_member:
  assumes "l \<in> set vocab"
  shows "\<exists>n. get_token_index vocab l = Inr n \<and> n < length vocab \<and> vocab ! n = l"
  using assms
proof (induction vocab)
  case Nil
  then show ?case by simp
next
  case (Cons t ts)
  show ?case
  proof (cases "t = l")
    case True
    then show ?thesis by simp
  next
    case False
    with Cons.prems have "l \<in> set ts" by simp
    from Cons.IH[OF this] obtain n where "get_token_index ts l = Inr n" "n < length ts" "ts ! n = l"
      by blast
    with False show ?thesis by simp
  qed
qed

lemma candidate_ids_result:
  "\<exists>ids. candidate_ids vocab cl = Inr ids \<and>
         length ids = length (filter (\<lambda>l. l \<in> set vocab) cl) \<and>
         (\<forall>n\<in>set ids. n < length vocab) \<and>
         map (\<lambda>n. vocab ! n) ids = filter (\<lambda>l. l \<in> set vocab) cl"
proof -
  let ?fc = "filter (\<lambda>l. l \<in> set vocab) cl"
  have "\<exists>ids. traverse (get_token_index vocab) ?fc = Inr ids"
  proof (rule traverse_total)
    fix x assume "x \<in> set ?fc"
    then have "x \<in> set vocab" by simp
    from get_token_index_member[OF this] show "\<exists>y. get_token_index vocab x = Inr y" by blast
  qed
  then obtain ids where ids: "traverse (get_token_index vocab) ?fc = Inr ids" ..
  have len: "length ids = length ?fc" and
    nth: "\<And>j. j < length ?fc \<Longrightarrow> get_token_index vocab (?fc ! j) = Inr (ids ! j)"
    using traverse_nth[OF ids] by auto
  have each: "ids ! j < length vocab \<and> vocab ! (ids ! j) = ?fc ! j" if "j < length ?fc" for j
  proof -
    have "?fc ! j \<in> set ?fc" using that by (rule nth_mem)
    then have "?fc ! j \<in> set vocab" by simp
    from get_token_index_member[OF this] nth[OF that] show ?thesis by auto
  qed
  have "\<forall>n\<in>set ids. n < length vocab"
    using each len by (auto simp: in_set_conv_nth)
  moreover have "map (\<lambda>n. vocab ! n) ids = ?fc"
    using each len by (auto intro: nth_equalityI)
  ultimately show ?thesis using ids len by (simp add: candidate_ids_def)
qed

lemma np_take_in_range:
  assumes "\<forall>n\<in>set cl. n < length fp"
  shows "np_take fp cl = Inr (map (\<lambda>n. fp ! n) cl)"
  using assms by (induction cl) (simp_all add: np_take_def getitem_def)

lemma frame_prediction_candidates:
  assumes "\<forall>n\<in>set cl. n < length fp" and "cl \<noteq> []"
  shows "\<exists>k. frame_prediction cl fp = Inr (cl ! k) \<and> k < length cl \<and>
             (\<forall>j<length cl. fp ! (cl ! j) \<le> fp ! (cl ! k)) \<and>
             (\<forall>j<k. fp ! (cl ! j) < fp ! (cl ! k))"
proof -
  let ?c = "map (\<lambda>n. fp ! n) cl"
  have "?c \<noteq> []" using assms(2) by simp
  from argmax_total[OF this] obtain k where k: "argmax ?c = Inr k" ..
  from argmax_first_max[OF k]
  have fm: "k < length cl" "\<forall>j<length cl. ?c ! j \<le> ?c ! k" "\<forall>j<k. ?c ! j < ?c ! k" by auto
  have "frame_prediction cl fp = Inr (cl ! k)"
    using assms k fm(1) by (simp add: frame_prediction_def np_take_in_range getitem_def)
  moreover have "\<forall>j<length cl. fp ! (cl ! j) \<le> fp ! (cl ! k)"
    using fm(1,2) by auto
  moreover have "\<forall>j<k. fp ! (cl ! j) < fp ! (cl ! k)"
    using fm(1,3) by auto
  ultimately show ?thesis using fm(1) by blast
qed

lemma frame_prediction_fallback: "frame_prediction [] fp = argmax fp"
  by (simp add: frame_prediction_def np_take_def)

lemma frame_prediction_total:
  assumes "\<forall>n\<in>set cl. n < length fp" and "fp \<noteq> []"
  shows "\<exists>p. frame_prediction cl fp = Inr p \<and> p < length fp"
proof (cases "cl = []")
  case True
  from argmax_total[OF assms(2)] obtain p where p: "argmax fp = Inr p" ..
  with argmax_first_max[OF p] True show ?thesis by (simp add: frame_prediction_fallback)
next
  case False
  from frame_prediction_candidates[OF assms(1) False] obtain k
    where "frame_prediction cl fp = Inr (cl ! k)" "k < length cl" by blast
  moreover from this assms(1) have "cl ! k < length fp" by simp
  ultimately show ?thesis by blast
qed

text \<open>
  The two branches of \<open>decode_frames\<close> on a well-shaped batch: every row of
  \<open>frame_probabilities\<close> has one entry per label of a vocabulary that is not empty.
\<close>

lemma decode_frames_unrestricted_result:
  assumes shape: "\<forall>fp\<in>set (frame_probabilities od). length fp = length vocab"
    and ne: "vocab \<noteq> []"
  obtains labels where
    "decode_frames vocab lemma_frame_dict od False = Inr (od\<lparr>frame_tags := Some labels\<rparr>)"
    "length labels = length (frame_probabilities od)"
    "\<And>i. i < length (frame_probabilities od) \<Longrightarrow>
       \<exists>p. argmax (frame_probabilities od ! i) = Inr p \<and> p < length vocab \<and>
           labels ! i = vocab ! p"
proof -
  let ?rows = "frame_probabilities od"
  have "\<exists>ps. traverse argmax ?rows = Inr ps"
  proof (rule traverse_total)
    fix x assume "x \<in> set ?rows"
    then have "length x = length vocab" using shape by simp
    then have "x \<noteq> []" using ne by auto
    then show "\<exists>y. argmax x = Inr y" by (rule argmax_total)
  qed
  then obtain ps where ps: "traverse argmax ?rows = Inr ps" ..
  have lps: "length ps = length ?rows"
    and nps: "\<And>i. i < length ?rows \<Longrightarrow> argmax (?rows ! i) = Inr (ps ! i)"
    using traverse_nth[OF ps] by auto
  have bound: "ps ! i < length vocab" if "i < length ?rows" for i
    using argmax_first_max[OF nps[OF that]] shape that by simp
  have "\<exists>ls. traverse (get_token_from_index vocab) ps = Inr ls"
  proof (rule traverse_total)
    fix p assume "p \<in> set ps"
    then obtain i where "i < length ps" "ps ! i = p" by (auto simp: in_set_conv_nth)
    with bound lps have "p < length vocab" by auto
    then show "\<exists>y. get_token_from_index vocab p = Inr y" by (simp add: get_token_from_index_def)
  qed
  then obtain ls where ls: "traverse (get_token_from_index vocab) ps = Inr ls" ..
  have lls: "length ls = length ps"
    and nls: "\<And>i. i < length ps \<Longrightarrow> get_token_from_index vocab (ps ! i) = Inr (ls ! i)"
    using traverse_nth[OF ls] by auto
  have "ls ! i = vocab ! (ps ! i)" if "i < length ?rows" for i
    using nls[of i] bound[OF that] that lps by (simp add: get_token_from_index_def)
  then have each: "\<exists>p. argmax (?rows ! i) = Inr p \<and> p < length vocab \<and> ls ! i = vocab ! p"
    if "i < length ?rows" for i
    using nps[OF that] bound[OF that] that by simp
  have dec: "decode_frames vocab lemma_frame_dict od False = Inr (od\<lparr>frame_tags := Some ls\<rparr>)"
    using ps ls by (simp add: decode_frames_def)
  have len: "length ls = length ?rows" using lls lps by simp
  show ?thesis by (rule that[OF dec len]) (rule each)
qed

lemma decode_frames_restricted_result:
  assumes shape: "\<forall>fp\<in>set (frame_probabilities od). length fp = length vocab"
    and ne: "vocab \<noteq> []"
  obtains labels where
    "decode_frames vocab lemma_frame_dict od True = Inr (od\<lparr>frame_tags := Some labels\<rparr>)"
    "length labels = min (length (lemma_list od)) (length (frame_probabilities od))"
    "\<And>i. i < length labels \<Longrightarrow>
       \<exists>ids p. candidate_ids vocab
                (case lemma_frame_dict (lemma_list od ! i) of None \<Rightarrow> [] | Some cl \<Rightarrow> cl) = Inr ids \<and>
              frame_prediction ids (frame_probabilities od ! i) = Inr p \<and> p < length vocab \<and>
              labels ! i = vocab ! p"
proof -
  let ?rows = "frame_probabilities od"
  let ?cands = "map (\<lambda>l. case lemma_frame_dict l of None \<Rightarrow> [] | Some cl \<Rightarrow> cl) (lemma_list od)"
  have "\<exists>cs. traverse (candidate_ids vocab) ?cands = Inr cs"
  proof (rule traverse_total)
    fix x
    from candidate_ids_result[of vocab x] obtain ids where "candidate_ids vocab x = Inr ids"
      by (elim exE conjE)
    then show "\<exists>y. candidate_ids vocab x = Inr y" ..
  qed
  then obtain cs where cs: "traverse (candidate_ids vocab) ?cands = Inr cs" ..
  have lcs: "length cs = length (lemma_list od)"
    and ncs: "\<And>i. i < length (lemma_list od) \<Longrightarrow> candidate_ids vocab (?cands ! i) = Inr (cs ! i)"
    using traverse_nth[OF cs] by auto
  have csb: "\<forall>n\<in>set (cs ! i). n < length vocab" if "i < length (lemma_list od)" for i
  proof -
    from candidate_ids_result[of vocab "?cands ! i"] obtain ids
      where "candidate_ids vocab (?cands ! i) = Inr ids" and "\<forall>n\<in>set ids. n < length vocab"
      by (elim exE conjE)
    with ncs[OF that] show ?thesis by simp
  qed
  let ?z = "zip cs ?rows"
  have "\<exists>ps. traverse (\<lambda>(cl, fp). frame_prediction cl fp) ?z = Inr ps"
  proof (rule traverse_total)
    fix x assume "x \<in> set ?z"
    then obtain i where i: "i < length ?z" "?z ! i = x" by (auto simp: in_set_conv_nth)
    then have x: "x = (cs ! i, ?rows ! i)" and il: "i < length (lemma_list od)" and ir: "i < length ?rows"
      using lcs by auto
    have len: "length (?rows ! i) = length vocab" using shape ir by simp
    have r1: "\<forall>n\<in>set (cs ! i). n < length (?rows ! i)" using csb[OF il] len by simp
    have r2: "?rows ! i \<noteq> []" using len ne by auto
    from frame_prediction_total[OF r1 r2] obtain p
      where "frame_prediction (cs ! i) (?rows ! i) = Inr p" by blast
    then show "\<exists>y. (case x of (cl, fp) \<Rightarrow> frame_prediction cl fp) = Inr y"
      using x by simp
  qed
  then obtain ps where ps: "traverse (\<lambda>(cl, fp). frame_prediction cl fp) ?z = Inr ps" ..
  have lps: "length ps = length ?z"
    and nps: "\<And>i. i < length ?z \<Longrightarrow> (case ?z ! i of (cl, fp) \<Rightarrow> frame_prediction cl fp) = Inr (ps ! i)"
    using traverse_nth[OF ps] by auto
  have lz: "length ?z = min (length (lemma_list od)) (length ?rows)" using lcs by simp
  have fpi: "frame_prediction (cs ! i) (?rows ! i) = Inr (ps ! i)" if "i < length ?z" for i
    using nps[OF that] that by simp
  have bound: "ps ! i < length vocab" if "i < length ?z" for i
  proof -
    have il: "i < length (lemma_list od)" and ir: "i < length ?rows" using that lcs by auto
    have len: "length (?rows ! i) = length vocab" using shape ir by simp
    have r1: "\<forall>n\<in>set (cs ! i). n < length (?rows ! i)" using csb[OF il] len by simp
    have r2: "?rows ! i \<noteq> []" using len ne by auto
    from frame_prediction_total[OF r1 r2] fpi[OF that] len
    show ?thesis by auto
  qed
  have "\<exists>ls. traverse (get_token_from_index vocab) ps = Inr ls"
  proof (rule traverse_total)
    fix p assume "p \<in> set ps"
    then obtain i where "i < length ps" "ps ! i = p" by (auto simp: in_set_conv_nth)
    with bound lps have "p < length vocab" by auto
    then show "\<exists>y. get_token_from_index vocab p = Inr y" by (simp add: get_token_from_index_def)
  qed
  then obtain ls where ls: "traverse (get_token_from_index vocab) ps = Inr ls" ..
  have lls: "length ls = length ps"
    and nls: "\<And>i. i < length ps \<Longrightarrow> get_token_from_index vocab (ps ! i) = Inr (ls ! i)"
    using traverse_nth[OF ls] by auto
  have lab: "ls ! i = vocab ! (ps ! i)" if "i < length ?z" for i
    using nls[of i] bound[OF that] that lps by (simp add: get_token_from_index_def)
  have each: "\<exists>ids p. candidate_ids vocab
                (case lemma_frame_dict (lemma_list od ! i) of None \<Rightarrow> [] | Some cl \<Rightarrow> cl) = Inr ids \<and>
              frame_prediction ids (?rows ! i) = Inr p \<and> p < length vocab \<and> ls ! i = vocab ! p"
    if "i < length ls" for i
  proof -
    have iz: "i < length ?z" using that lls lps by simp
    then have il: "i < length (lemma_list od)" using lcs by simp
    have "candidate_ids vocab (case lemma_frame_dict (lemma_list od ! i) of None \<Rightarrow> [] | Some cl \<Rightarrow> cl)
            = Inr (cs ! i)"
      using ncs[OF il] il by simp
    with fpi[OF iz] bound[OF iz] lab[OF iz] show ?thesis by blast
  qed
  have dec: "decode_frames vocab lemma_frame_dict od True = Inr (od\<lparr>frame_tags := Some ls\<rparr>)"
    using cs ps ls by (simp add: decode_frames_def)
  have len: "length ls = min (length (lemma_list od)) (length ?rows)"
    using lls lps lz by simp
  show ?thesis by (rule that[OF dec len]) (rule each)
qed

subsection \<open>Restriction to the candidates of the lemma\<close>

text \<open>
  C1. Take a batch whose rows of \<open>frame_probabilities\<close> have one entry per label of the
  vocabulary, and an instance \<open>i\<close> whose lemma is in the lexicon with at least one
  candidate in the vocabulary. Then \<open>decode_frames\<close> with \<open>restrict = True\<close> returns,
  and the label of instance \<open>i\<close> is a member of the filtered candidate list: it is the
  candidate at the position \<open>k\<close> whose probability is maximal among the candidates, and
  every candidate before \<open>k\<close> has a strictly smaller probability (the first maximal
  candidate wins). Labels outside the candidate list are never compared, whatever
  their probability.
\<close>

theorem decode_frames_restricted:
  assumes shape: "\<forall>fp\<in>set (frame_probabilities od). length fp = length vocab"
    and il: "i < length (lemma_list od)" and ir: "i < length (frame_probabilities od)"
    and lex: "lemma_frame_dict (lemma_list od ! i) = Some cands"
    and cne: "filter (\<lambda>l. l \<in> set vocab) cands \<noteq> []"
  shows "\<exists>labels ids k.
           decode_frames vocab lemma_frame_dict od True = Inr (od\<lparr>frame_tags := Some labels\<rparr>) \<and>
           i < length labels \<and>
           candidate_ids vocab cands = Inr ids \<and>
           map (\<lambda>n. vocab ! n) ids = filter (\<lambda>l. l \<in> set vocab) cands \<and>
           k < length ids \<and>
           labels ! i = filter (\<lambda>l. l \<in> set vocab) cands ! k \<and>
           labels ! i \<in> set (filter (\<lambda>l. l \<in> set vocab) cands) \<and>
           (\<forall>j<length ids. frame_probabilities od ! i ! (ids ! j)
                             \<le> frame_probabilities od ! i ! (ids ! k)) \<and>
           (\<forall>j<k. frame_probabilities od ! i ! (ids ! j)
                    < frame_probabilities od ! i ! (ids ! k))"
proof -
  let ?fc = "filter (\<lambda>l. l \<in> set vocab) cands"
  let ?fp = "frame_probabilities od ! i"
  have vne: "vocab \<noteq> []" using cne by (cases vocab) auto
  from decode_frames_restricted_result[OF shape vne, of lemma_frame_dict]
  obtain labels where
    dec: "decode_frames vocab lemma_frame_dict od True = Inr (od\<lparr>frame_tags := Some labels\<rparr>)"
    and len: "length labels = min (length (lemma_list od)) (length (frame_probabilities od))"
    and each: "\<And>i. i < length labels \<Longrightarrow>
       \<exists>ids p. candidate_ids vocab
                (case lemma_frame_dict (lemma_list od ! i) of None \<Rightarrow> [] | Some cl \<Rightarrow> cl) = Inr ids \<and>
              frame_prediction ids (frame_probabilities od ! i) = Inr p \<and> p < length vocab \<and>
              labels ! i = vocab ! p"
    by blast
  have ilab: "i < length labels" using len il ir by simp
  from each[OF ilab] lex obtain ids p where
    ids: "candidate_ids vocab cands = Inr ids"
    and fp: "frame_prediction ids ?fp = Inr p" and lab: "labels ! i = vocab ! p"
    by auto
  from candidate_ids_result[of vocab cands] ids
  have lids: "length ids = length ?fc" and bids: "\<forall>n\<in>set ids. n < length vocab"
    and mids: "map (\<lambda>n. vocab ! n) ids = ?fc"
    by auto
  have "length ?fp = length vocab" using shape ir by simp
  then have r1: "\<forall>n\<in>set ids. n < length ?fp" using bids by simp
  have r2: "ids \<noteq> []" using lids cne by auto
  from frame_prediction_candidates[OF r1 r2] fp obtain k where
    pk: "p = ids ! k" and k: "k < length ids"
    and mx: "\<forall>j<length ids. ?fp ! (ids ! j) \<le> ?fp ! (ids ! k)"
    and fst: "\<forall>j<k. ?fp ! (ids ! j) < ?fp ! (ids ! k)"
    by auto
  have "vocab ! (ids ! k) = map (\<lambda>n. vocab ! n) ids ! k" using k by simp
  then have labk: "labels ! i = ?fc ! k" using lab pk mids by simp
  have "k < length ?fc" using k lids by simp
  then have mem: "labels ! i \<in> set ?fc" unfolding labk by (rule nth_mem)
  show ?thesis
    using dec ilab ids mids k labk mem mx fst by blast
qed

theorem decode_frames_restricted_witness:
  "map length [[9/10, 1/20, 1/20 :: rat]] = [length [''SEE'', ''LOOK'', ''EAT'']] \<and>
   [''see'' \<mapsto> [''LOOK'', ''WATCH'', ''EAT'']] ([''see''] ! 0) = Some [''LOOK'', ''WATCH'', ''EAT''] \<and>
   filter (\<lambda>l. l \<in> set [''SEE'', ''LOOK'', ''EAT'']) [''LOOK'', ''WATCH'', ''EAT''] = [''LOOK'', ''EAT''] \<and>
   map_sum id frame_tags
     (decode_frames [''SEE'', ''LOOK'', ''EAT''] [''see'' \<mapsto> [''LOOK'', ''WATCH'', ''EAT'']]
        \<lparr>logits = [], frame_logits = [], class_probabilities = [],
         frame_probabilities = [[9/10, 1/20, 1/20 :: rat]], mask = [], words = [],
         lemma_list = [''see''], verb = [], wordpiece_offsets = [], tags = None,
         frame_tags = None\<rparr> True) = Inr (Some [''LOOK''])"
proof -
  let ?od = "\<lparr>logits = [], frame_logits = [], class_probabilities = [],
         frame_probabilities = [[9/10, 1/20, 1/20 :: rat]], mask = [], words = [],
         lemma_list = [''see''], verb = [], wordpiece_offsets = [], tags = None,
         frame_tags = None\<rparr>"
  let ?vocab = "[''SEE'', ''LOOK'', ''EAT'']"
  let ?lex = "[''see'' \<mapsto> [''LOOK'', ''WATCH'', ''EAT'']]"
  have h1: "\<forall>fp\<in>set (frame_probabilities ?od). length fp = length ?vocab" by simp
  have h2: "0 < length (lemma_list ?od)" by simp
  have h3: "0 < length (frame_probabilities ?od)" by simp
  have h4: "?lex (lemma_list ?od ! 0) = Some [''LOOK'', ''WATCH'', ''EAT'']" by simp
  have h5: "filter (\<lambda>l. l \<in> set ?vocab) [''LOOK'', ''WATCH'', ''EAT''] \<noteq> []" by simp
  from decode_frames_restricted[where od="?od" and vocab="?vocab" and i=0
      and lemma_frame_dict="?lex" and cands="[''LOOK'', ''WATCH'', ''EAT'']", OF h1 h2 h3 h4 h5]
  obtain labels k where
    dec: "decode_frames ?vocab ?lex ?od True = Inr (?od\<lparr>frame_tags := Some labels\<rparr>)"
    and len: "0 < length labels"
    and lab: "labels ! 0 = filter (\<lambda>l. l \<in> set ?vocab) [''LOOK'', ''WATCH'', ''EAT''] ! k"
    by blast
  have "decode_frames ?vocab ?lex ?od True = Inr (?od\<lparr>frame_tags := Some [''LOOK'']\<rparr>)"
    by (simp add: decode_frames_def candidate_ids_def frame_prediction_def np_take_def
        getitem_def argmax_def get_token_from_index_def)
  then show ?thesis by simp
qed

subsection \<open>Fallback to the global argmax\<close>

text \<open>
  C5. On a batch whose rows have one entry per label of a vocabulary that is not empty,
  take an instance \<open>i\<close> whose lemma has no candidate in the vocabulary: the lemma is
  absent from the lexicon, or none of its candidates is a label of the vocabulary. Then
  both calls of \<open>decode_frames\<close> return, the label of instance \<open>i\<close> with
  \<open>restrict = True\<close> is the label with \<open>restrict = False\<close>, and both are the label at
  the argmax of the instance's row.
\<close>

theorem decode_frames_fallback:
  assumes shape: "\<forall>fp\<in>set (frame_probabilities od). length fp = length vocab"
    and vne: "vocab \<noteq> []"
    and il: "i < length (lemma_list od)" and ir: "i < length (frame_probabilities od)"
    and none: "filter (\<lambda>l. l \<in> set vocab)
                 (case lemma_frame_dict (lemma_list od ! i) of None \<Rightarrow> [] | Some cl \<Rightarrow> cl) = []"
  shows "\<exists>restricted unrestricted g.
           decode_frames vocab lemma_frame_dict od True = Inr (od\<lparr>frame_tags := Some restricted\<rparr>) \<and>
           decode_frames vocab lemma_frame_dict od False = Inr (od\<lparr>frame_tags := Some unrestricted\<rparr>) \<and>
           i < length restricted \<and> i < length unrestricted \<and>
           restricted ! i = unrestricted ! i \<and>
           argmax (frame_probabilities od ! i) = Inr g \<and>
           unrestricted ! i = vocab ! g"
proof -
  let ?cl = "case lemma_frame_dict (lemma_list od ! i) of None \<Rightarrow> [] | Some cl \<Rightarrow> cl"
  from decode_frames_restricted_result[OF shape vne, of lemma_frame_dict]
  obtain lr where
    decr: "decode_frames vocab lemma_frame_dict od True = Inr (od\<lparr>frame_tags := Some lr\<rparr>)"
    and lenr: "length lr = min (length (lemma_list od)) (length (frame_probabilities od))"
    and eachr: "\<And>i. i < length lr \<Longrightarrow>
       \<exists>ids p. candidate_ids vocab
                (case lemma_frame_dict (lemma_list od ! i) of None \<Rightarrow> [] | Some cl \<Rightarrow> cl) = Inr ids \<and>
              frame_prediction ids (frame_probabilities od ! i) = Inr p \<and> p < length vocab \<and>
              lr ! i = vocab ! p"
    by blast
  from decode_frames_unrestricted_result[OF shape vne, of lemma_frame_dict]
  obtain lu where
    decu: "decode_frames vocab lemma_frame_dict od False = Inr (od\<lparr>frame_tags := Some lu\<rparr>)"
    and lenu: "length lu = length (frame_probabilities od)"
    and eachu: "\<And>i. i < length (frame_probabilities od) \<Longrightarrow>
       \<exists>p. argmax (frame_probabilities od ! i) = Inr p \<and> p < length vocab \<and> lu ! i = vocab ! p"
    by blast
  have ilr: "i < length lr" using lenr il ir by simp
  have ilu: "i < length lu" using lenu ir by simp
  from eachr[OF ilr] obtain ids p where
    ids: "candidate_ids vocab ?cl = Inr ids"
    and fp: "frame_prediction ids (frame_probabilities od ! i) = Inr p"
    and labr: "lr ! i = vocab ! p"
    by blast
  from candidate_ids_result[of vocab ?cl] ids none have "ids = []" by auto
  with fp have am: "argmax (frame_probabilities od ! i) = Inr p"
    by (simp add: frame_prediction_fallback)
  from eachu[OF ir] am have labu: "lu ! i = vocab ! p" by auto
  show ?thesis
    by (rule exI[of _ lr], rule exI[of _ lu], rule exI[of _ p])
      (simp add: decr decu ilr ilu labr labu am)
qed

theorem decode_frames_fallback_witness:
  "map length [[1/10, 7/10, 1/5 :: rat], [3/5, 1/5, 1/5]]
     = [length [''SEE'', ''LOOK'', ''EAT''], length [''SEE'', ''LOOK'', ''EAT'']] \<and>
   [''see'' \<mapsto> [''WATCH'']] ''run'' = None \<and>
   filter (\<lambda>l. l \<in> set [''SEE'', ''LOOK'', ''EAT'']) [''WATCH''] = [] \<and>
   map_sum id frame_tags
     (decode_frames [''SEE'', ''LOOK'', ''EAT''] [''see'' \<mapsto> [''WATCH'']]
        \<lparr>logits = [], frame_logits = [], class_probabilities = [],
         frame_probabilities = [[1/10, 7/10, 1/5 :: rat], [3/5, 1/5, 1/5]], mask = [], words = [],
         lemma_list = [''run'', ''see''], verb = [], wordpiece_offsets = [], tags = None,
         frame_tags = None\<rparr> True) = Inr (Some [''LOOK'', ''SEE'']) \<and>
   map_sum id frame_tags
     (decode_frames [''SEE'', ''LOOK'', ''EAT''] [''see'' \<mapsto> [''WATCH'']]
        \<lparr>logits = [], frame_logits = [], class_probabilities = [],
         frame_probabilities = [[1/10, 7/10, 1/5 :: rat], [3/5, 1/5, 1/5]], mask = [], words = [],
         lemma_list = [''run'', ''see''], verb = [], wordpiece_offsets = [], tags = None,
         frame_tags = None\<rparr> False) = Inr (Some [''LOOK'', ''SEE''])"
proof -
  let ?od = "\<lparr>logits = [], frame_logits = [], class_probabilities = [],
         frame_probabilities = [[1/10, 7/10, 1/5 :: rat], [3/5, 1/5, 1/5]], mask = [], words = [],
         lemma_list = [''run'', ''see''], verb = [], wordpiece_offsets = [], tags = None,
         frame_tags = None\<rparr>"
  let ?vocab = "[''SEE'', ''LOOK'', ''EAT'']"
  let ?lex = "[''see'' \<mapsto> [''WATCH'']]"
  have h1: "\<forall>fp\<in>set (frame_probabilities ?od). length fp = length ?vocab" by simp
  have h2: "?vocab \<noteq> []" by simp
  have h3: "0 < length (lemma_list ?od)" by simp
  have h4: "0 < length (frame_probabilities ?od)" by simp
  have h5: "filter (\<lambda>l. l \<in> set ?vocab)
              (case ?lex (lemma_list ?od ! 0) of None \<Rightarrow> [] | Some cl \<Rightarrow> cl) = []" by simp
  from decode_frames_fallback[where od="?od" and vocab="?vocab" and i=0
      and lemma_frame_dict="?lex", OF h1 h2 h3 h4 h5]
  obtain r u where
    "decode_frames ?vocab ?lex ?od True = Inr (?od\<lparr>frame_tags := Some r\<rparr>)"
    "decode_frames ?vocab ?lex ?od False = Inr (?od\<lparr>frame_tags := Some u\<rparr>)"
    "r ! 0 = u ! 0"
    by blast
  have "decode_frames ?vocab ?lex ?od True = Inr (?od\<lparr>frame_tags := Some [''LOOK'', ''SEE'']\<rparr>)"
    by (simp add: decode_frames_def candidate_ids_def frame_prediction_def np_take_def
        getitem_def argmax_def get_token_from_index_def)
  moreover
  have "decode_frames ?vocab ?lex ?od False = Inr (?od\<lparr>frame_tags := Some [''LOOK'', ''SEE'']\<rparr>)"
    by (simp add: decode_frames_def argmax_def get_token_from_index_def)
  ultimately show ?thesis by simp
qed

section \<open>Properties of forward\<close>

lemma decode_unrestricted_lexicon:
  "decode net vocab lexicon od False = decode net vocab Map.empty od False"
  by (cases "super_decode net od") (simp_all add: decode_def decode_frames_def)

text \<open>
  C8. The metric path decodes with \<open>restrict = False\<close>, and that decoding does not read
  the lexicon: for any two lexicons and the same inputs, \<open>forward\<close> returns the same
  result, which includes the argument tuples handed to the span metric (the predicted
  tag sequences among them) and to the frame metric (the frame logits among them).
\<close>

theorem metric_path_ignores_lexicon:
  "forward net cfg vocab lexicon1 ms tokens verb_indicator frame_indicator md gold_tags gold_frame_tags
     = forward net cfg vocab lexicon2 ms tokens verb_indicator frame_indicator md gold_tags gold_frame_tags
   \<and> decode net vocab lexicon1 od False = decode net vocab lexicon2 od False"
  by (simp only: forward_def decode_unrestricted_lexicon[of _ _ lexicon1]
      decode_unrestricted_lexicon[of _ _ lexicon2])

text \<open>
  C4. The claim: an instance without a marked predicate position leaves the frame labels
  of the other instances of its batch as they are, each at the index of its instance.
  In the source, \<open>embedded_text_input[frame_indicator == 1]\<close> yields no row for such an
  instance, so the rows after it move up by one. In the batch of three instances below,
  the second has an all-zero frame indicator: the third instance's row is decoded under
  the second instance's lemma and its label RUN stands at index 1; without the second
  instance the labels are SEE and EAT. When the unmarked instance carries no lemma the
  values are kept, but two labels stand for three instances.
\<close>

theorem unmarked_instance_shifts_frame_rows:
  "map_sum id frame_tags
     (forward_and_decode identity_network
        \<lparr>ignore_span_metric = False, has_span_metric = True, training = False\<rparr>
        [''SEE'', ''RUN'', ''EAT'']
        [''see'' \<mapsto> [''SEE''], ''run'' \<mapsto> [''RUN''], ''eat'' \<mapsto> [''EAT'']]
        \<lparr>span_metric_calls = [], f1_frame_metric_calls = []\<rparr>
        [[[0, 0, 0], [4/5, 1/10, 1/10]], [[0, 0, 0], [1/3, 1/3, 1/3]], [[0, 0, 0], [1/10, 1/10, 4/5]]]
        [[0, 1], [0, 0], [0, 1]] [[0, 1], [0, 0], [0, 1]]
        [instance_metadata [''I'', ''see''] [''see''], instance_metadata [''we'', ''run''] [''run''],
         instance_metadata [''they'', ''eat''] [''eat'']])
     = Inr (Some [''SEE'', ''RUN'']) \<and>
   map_sum id frame_tags
     (forward_and_decode identity_network
        \<lparr>ignore_span_metric = False, has_span_metric = True, training = False\<rparr>
        [''SEE'', ''RUN'', ''EAT'']
        [''see'' \<mapsto> [''SEE''], ''run'' \<mapsto> [''RUN''], ''eat'' \<mapsto> [''EAT'']]
        \<lparr>span_metric_calls = [], f1_frame_metric_calls = []\<rparr>
        [[[0, 0, 0], [4/5, 1/10, 1/10]], [[0, 0, 0], [1/10, 1/10, 4/5]]]
        [[0, 1], [0, 1]] [[0, 1], [0, 1]]
        [instance_metadata [''I'', ''see''] [''see''],
         instance_metadata [''they'', ''eat''] [''eat'']])
     = Inr (Some [''SEE'', ''EAT'']) \<and>
   map_sum id frame_tags
     (forward_and_decode identity_network
        \<lparr>ignore_span_metric = False, has_span_metric = True, training = False\<rparr>
        [''SEE'', ''RUN'', ''EAT'']
        [''see'' \<mapsto> [''SEE''], ''run'' \<mapsto> [''RUN''], ''eat'' \<mapsto> [''EAT'']]
        \<lparr>span_metric_calls = [], f1_frame_metric_calls = []\<rparr>
        [[[0, 0, 0], [4/5, 1/10, 1/10]], [[0, 0, 0], [1/3, 1/3, 1/3]], [[0, 0, 0], [1/10, 1/10, 4/5]]]
        [[0, 1], [0, 0], [0, 1]] [[0, 1], [0, 0], [0, 1]]
        [instance_metadata [''I'', ''see''] [''see''], instance_metadata [''we'', ''run''] [],
         instance_metadata [''they'', ''eat''] [''eat'']])
     = Inr (Some [''SEE'', ''EAT''])"
  by (simp add: forward_and_decode_def forward_def decode_def decode_frames_def
      identity_network_def instance_metadata_def mask_select_def candidate_ids_def
      frame_prediction_def np_take_def getitem_def argmax_def get_token_from_index_def
      Let_def)

section \<open>Properties of the predictor\<close>

subsection \<open>Auxiliary facts\<close>

lemma group_by_count_step:
  assumes "0 < count" and "xs \<noteq> []"
  shows "group_by_count xs count d =
           (take count xs @ replicate (count - length (take count xs)) d)
             # group_by_count (drop count xs) count d"
  using assms by (subst group_by_count.simps) simp

lemma group_by_count_Nil: "group_by_count [] count d = []"
  by (subst group_by_count.simps) simp

lemma strip_padding_concat:
  assumes "0 < count" and "xs \<noteq> []" and "None \<notin> set xs"
  shows "group_by_count xs count None \<noteq> [] \<and>
         concat (butlast (group_by_count xs count None) @
                 [filter (\<lambda>instance. instance \<noteq> None) (last (group_by_count xs count None))]) = xs"
  using assms
proof (induction "length xs" arbitrary: xs rule: less_induct)
  case less
  let ?r = "drop count xs"
  have step: "group_by_count xs count None =
                (take count xs @ replicate (count - length (take count xs)) None)
                  # group_by_count ?r count None"
    using less.prems(1,2) by (rule group_by_count_step)
  show ?case
  proof (cases "?r = []")
    case True
    then have tk: "take count xs = xs" by simp
    have all: "\<forall>x\<in>set xs. x \<noteq> None" by (metis less.prems(3))
    have flt: "filter (\<lambda>instance. instance \<noteq> None) xs = xs"
      unfolding filter_id_conv by (rule all)
    show ?thesis
      unfolding step True group_by_count_Nil tk
      using flt by simp
  next
    case False
    then have lt: "length ?r < length xs" using less.prems(1) by simp
    have nn: "None \<notin> set ?r" using less.prems(3) by (auto dest: in_set_dropD)
    from less.hyps[OF lt less.prems(1) False nn]
    have ne: "group_by_count ?r count None \<noteq> []"
      and cc: "concat (butlast (group_by_count ?r count None) @
                 [filter (\<lambda>instance. instance \<noteq> None) (last (group_by_count ?r count None))]) = ?r"
      by auto
    have full: "count - length (take count xs) = 0" using False by simp
    have "concat (butlast (group_by_count xs count None) @
                 [filter (\<lambda>instance. instance \<noteq> None) (last (group_by_count xs count None))])
          = take count xs @ ?r"
      unfolding step using ne cc full by simp
    then show ?thesis unfolding step by simp
  qed
qed

lemma make_batches_result:
  assumes "0 < batch_size" and "flattened \<noteq> []"
  obtains bs where "make_batches flattened batch_size = Inr bs"
    and "concat bs = map Some flattened" and "\<And>b. b \<in> set bs \<Longrightarrow> None \<notin> set b"
proof -
  let ?g = "group_by_count (map Some flattened) batch_size None"
  let ?bs = "butlast ?g @ [filter (\<lambda>instance. instance \<noteq> None) (last ?g)]"
  have ne: "map Some flattened \<noteq> []" using assms(2) by simp
  have nn: "None \<notin> set (map Some flattened)" by auto
  from strip_padding_concat[OF assms(1) ne nn]
  have g: "?g \<noteq> []" and c: "concat ?bs = map Some flattened" by auto
  have mb: "make_batches flattened batch_size = Inr ?bs"
    using g by (simp add: make_batches_def Let_def)
  have "None \<notin> set b" if "b \<in> set ?bs" for b
  proof
    assume "None \<in> set b"
    with that have "None \<in> set (concat ?bs)" unfolding set_concat by blast
    with c nn show False by simp
  qed
  with mb c show ?thesis by (rule that)
qed

lemma forward_on_batches_length:
  assumes "\<forall>b. None \<notin> set b \<longrightarrow> length (fwd b) = length b"
    and "\<And>b. b \<in> set bs \<Longrightarrow> None \<notin> set b"
  shows "length (forward_on_batches fwd bs) = length (concat bs)"
  using assms(2) unfolding forward_on_batches_def
proof (induction bs)
  case Nil
  show ?case by simp
next
  case (Cons b bs)
  have "length (fwd b) = length b" using assms(1) Cons.prems by simp
  moreover have "length (concat (map fwd bs)) = length (concat bs)"
    using Cons by simp
  ultimately show ?case by simp
qed

lemma concat_slice:
  assumes "i < length xss"
  shows "take (length (xss ! i)) (drop (sum_list (map length (take i xss))) (concat xss)) = xss ! i"
  using assms
proof (induction xss arbitrary: i)
  case Nil
  then show ?case by simp
next
  case (Cons xs xss)
  show ?case
  proof (cases i)
    case 0
    then show ?thesis by simp
  next
    case (Suc j)
    with Cons.prems have "j < length xss" by simp
    from Cons.IH[OF this] Suc show ?thesis by simp
  qed
qed

lemma tokens_to_instances_no_verb:
  assumes "\<forall>t\<in>set tokens. pos_tag t \<noteq> ''VERB''"
  shows "tokens_to_instances tti tokens = []"
proof -
  have "\<forall>p\<in>set (enumerate 0 tokens). pos_tag (snd p) \<noteq> ''VERB''"
    using assms by (auto simp: in_set_enumerate_eq)
  then show ?thesis
    unfolding tokens_to_instances_def Let_def concat_eq_Nil_conv
    by (auto split: prod.splits)
qed

lemma verb_loop_result:
  assumes "output_index + n \<le> length outputs"
  shows "\<exists>d'. verb_loop outputs n (output_index, d) = Inr (output_index + n, d') \<and>
              rd_verbs d' = rd_verbs d @ map make_verb_dict (take n (drop output_index outputs))"
  using assms
proof (induction n arbitrary: output_index d)
  case 0
  then show ?case by simp
next
  case (Suc n)
  have lt: "output_index < length outputs" using Suc.prems by simp
  let ?out = "outputs ! output_index"
  let ?d1 = "d\<lparr>rd_words := Some (Strings (out_words ?out)),
               rd_verbs := rd_verbs d @ [make_verb_dict ?out]\<rparr>"
  have le: "Suc output_index + n \<le> length outputs" using Suc.prems by simp
  from Suc.IH[OF le, of ?d1] obtain d' where
    vl: "verb_loop outputs n (Suc output_index, ?d1) = Inr (Suc output_index + n, d')"
    and vs: "rd_verbs d' = rd_verbs ?d1 @ map make_verb_dict (take n (drop (Suc output_index) outputs))"
    by blast
  have tk: "take (Suc n) (drop output_index outputs)
              = ?out # take n (drop (Suc output_index) outputs)"
    using lt by (simp add: Cons_nth_drop_Suc[symmetric])
  have "verb_loop outputs (Suc n) (output_index, d) = Inr (output_index + Suc n, d')"
    using vl lt by (simp add: getitem_def)
  moreover have "rd_verbs d' = rd_verbs d @ map make_verb_dict (take (Suc n) (drop output_index outputs))"
    using vs tk by simp
  ultimately show ?case by blast
qed

lemma sentence_loop_result:
  assumes "length rds = length inputs" and "s + length cs = length inputs"
    and "oi + sum_list cs \<le> length outputs"
  shows "\<exists>rds'. sentence_loop tok inputs outputs (enumerate s cs) (oi, rds) = Inr rds' \<and>
           length rds' = length rds \<and>
           (\<forall>j<s. rds' ! j = rds ! j) \<and>
           (\<forall>k<length cs.
              rd_verbs (rds' ! (s + k)) =
                rd_verbs (rds ! (s + k)) @
                map make_verb_dict (take (cs ! k) (drop (oi + sum_list (take k cs)) outputs)) \<and>
              (cs ! k = 0 \<longrightarrow>
                 rds' ! (s + k) = (rds ! (s + k))\<lparr>rd_words := Some (Tokens (tok (inputs ! (s + k))))\<rparr>))"
  using assms
proof (induction cs arbitrary: s oi rds)
  case Nil
  then show ?case by simp
next
  case (Cons c cs)
  have s_in: "s < length inputs" using Cons.prems(2) by simp
  have s_rd: "s < length rds" using Cons.prems(1,2) by simp
  have "\<exists>d1. sentence_loop tok inputs outputs (enumerate s (c # cs)) (oi, rds)
                = sentence_loop tok inputs outputs (enumerate (Suc s) cs) (oi + c, rds[s := d1]) \<and>
             rd_verbs d1 = rd_verbs (rds ! s) @ map make_verb_dict (take c (drop oi outputs)) \<and>
             (c = 0 \<longrightarrow> d1 = (rds ! s)\<lparr>rd_words := Some (Tokens (tok (inputs ! s)))\<rparr>)"
  proof (cases "c = 0")
    case True
    show ?thesis
      by (rule exI[of _ "(rds ! s)\<lparr>rd_words := Some (Tokens (tok (inputs ! s)))\<rparr>"])
        (simp add: True getitem_def s_in s_rd)
  next
    case False
    have "oi + c \<le> length outputs" using Cons.prems(3) by simp
    from verb_loop_result[OF this, of "rds ! s"] obtain d' where
      vl: "verb_loop outputs c (oi, rds ! s) = Inr (oi + c, d')"
      and vs: "rd_verbs d' = rd_verbs (rds ! s) @ map make_verb_dict (take c (drop oi outputs))"
      by blast
    show ?thesis
      by (rule exI[of _ d']) (simp add: False getitem_def s_rd vl vs)
  qed
  then obtain d1 where
    stp: "sentence_loop tok inputs outputs (enumerate s (c # cs)) (oi, rds)
            = sentence_loop tok inputs outputs (enumerate (Suc s) cs) (oi + c, rds[s := d1])"
    and d1v: "rd_verbs d1 = rd_verbs (rds ! s) @ map make_verb_dict (take c (drop oi outputs))"
    and d1w: "c = 0 \<longrightarrow> d1 = (rds ! s)\<lparr>rd_words := Some (Tokens (tok (inputs ! s)))\<rparr>"
    by blast
  let ?rds1 = "rds[s := d1]"
  have p1: "length ?rds1 = length inputs" using Cons.prems(1) by simp
  have p2: "Suc s + length cs = length inputs" using Cons.prems(2) by simp
  have p3: "(oi + c) + sum_list cs \<le> length outputs" using Cons.prems(3) by simp
  from Cons.IH[OF p1 p2 p3] obtain rds' where
    r1: "sentence_loop tok inputs outputs (enumerate (Suc s) cs) (oi + c, ?rds1) = Inr rds'"
    and r2: "length rds' = length ?rds1"
    and r3: "\<forall>j<Suc s. rds' ! j = ?rds1 ! j"
    and r4: "\<forall>k<length cs.
              rd_verbs (rds' ! (Suc s + k)) =
                rd_verbs (?rds1 ! (Suc s + k)) @
                map make_verb_dict (take (cs ! k) (drop (oi + c + sum_list (take k cs)) outputs)) \<and>
              (cs ! k = 0 \<longrightarrow>
                 rds' ! (Suc s + k) =
                   (?rds1 ! (Suc s + k))\<lparr>rd_words := Some (Tokens (tok (inputs ! (Suc s + k))))\<rparr>)"
    by blast
  have g1: "sentence_loop tok inputs outputs (enumerate s (c # cs)) (oi, rds) = Inr rds'"
    using stp r1 by simp
  have g2: "length rds' = length rds" using r2 by simp
  have g3: "\<forall>j<s. rds' ! j = rds ! j"
  proof (intro allI impI)
    fix j assume "j < s"
    then show "rds' ! j = rds ! j" using r3 by simp
  qed
  have at_s: "rds' ! s = d1" using r3 s_rd by simp
  have g4: "rd_verbs (rds' ! (s + k)) =
                rd_verbs (rds ! (s + k)) @
                map make_verb_dict
                  (take ((c # cs) ! k) (drop (oi + sum_list (take k (c # cs))) outputs)) \<and>
              ((c # cs) ! k = 0 \<longrightarrow>
                 rds' ! (s + k) = (rds ! (s + k))\<lparr>rd_words := Some (Tokens (tok (inputs ! (s + k))))\<rparr>)"
    if "k < length (c # cs)" for k
  proof (cases k)
    case 0
    then show ?thesis using at_s d1v d1w by simp
  next
    case (Suc k')
    then have k': "k' < length cs" using that by simp
    have same: "?rds1 ! (Suc s + k') = rds ! (Suc s + k')" by simp
    have idx: "s + k = Suc s + k'" using Suc by simp
    have sm: "oi + sum_list (take k (c # cs)) = oi + c + sum_list (take k' cs)"
      using Suc by simp
    have nth: "(c # cs) ! k = cs ! k'" using Suc by simp
    from r4 k' have
      "rd_verbs (rds' ! (Suc s + k')) =
         rd_verbs (?rds1 ! (Suc s + k')) @
         map make_verb_dict (take (cs ! k') (drop (oi + c + sum_list (take k' cs)) outputs)) \<and>
       (cs ! k' = 0 \<longrightarrow>
          rds' ! (Suc s + k') =
            (?rds1 ! (Suc s + k'))\<lparr>rd_words := Some (Tokens (tok (inputs ! (Suc s + k'))))\<rparr>)"
      by blast
    then show ?thesis unfolding idx sm nth same .
  qed
  show ?case
    using g1 g2 g3 g4 by blast
qed

text \<open>
  What \<open>predict_batch_json\<close> returns when the model gives one output per instance of a
  batch without padding.
\<close>

lemma predict_batch_json_result:
  assumes fwd: "\<forall>b. None \<notin> set b \<longrightarrow> length (fwd b) = length b"
    and ips: "ips = map (sentence_to_srl_instances tok tti) inputs"
  obtains rs outputs where
    "predict_batch_json tok tti fwd inputs = Inr rs"
    "length rs = length inputs"
    "length outputs = length (concat ips)"
    "concat ips \<noteq> [] \<Longrightarrow>
       \<exists>bs. make_batches (concat ips) (length inputs) = Inr bs \<and>
            concat bs = map Some (concat ips) \<and> outputs = forward_on_batches fwd bs"
    "\<And>i. i < length inputs \<Longrightarrow>
       rd_verbs (rs ! i) =
         map make_verb_dict
           (take (length (ips ! i)) (drop (sum_list (map length (take i ips))) outputs))"
    "\<And>i. i < length inputs \<Longrightarrow> ips ! i = [] \<Longrightarrow>
       rs ! i = \<lparr>rd_verbs = [], rd_words = Some (Strings (map tok_text (tok (inputs ! i))))\<rparr>"
proof (cases "concat ips = []")
  case True
  let ?rs = "sanitize (map (\<lambda>x. \<lparr>rd_verbs = [], rd_words = Some (Tokens (tok x))\<rparr>) inputs)"
  have a: "predict_batch_json tok tti fwd inputs = Inr ?rs"
    using True ips by (simp add: predict_batch_json_def Let_def)
  have b: "length ?rs = length inputs" by (simp add: sanitize_def)
  have c: "length ([] :: model_output list) = length (concat ips)" using True by simp
  have e: "rd_verbs (?rs ! i) =
         map make_verb_dict
           (take (length (ips ! i)) (drop (sum_list (map length (take i ips))) []))"
    if "i < length inputs" for i
    using that by (simp add: sanitize_def)
  have f: "?rs ! i = \<lparr>rd_verbs = [], rd_words = Some (Strings (map tok_text (tok (inputs ! i))))\<rparr>"
    if "i < length inputs" for i
    using that by (simp add: sanitize_def)
  show ?thesis
    by (rule that[of ?rs "[]"]) (use a b c e f True in simp_all)
next
  case False
  have "inputs \<noteq> []" using False ips by auto
  then have pos: "0 < length inputs" by simp
  from make_batches_result[OF pos False] obtain bs where
    mb: "make_batches (concat ips) (length inputs) = Inr bs"
    and cb: "concat bs = map Some (concat ips)"
    and nn: "\<And>b. b \<in> set bs \<Longrightarrow> None \<notin> set b"
    by blast
  let ?outputs = "forward_on_batches fwd bs"
  have lo: "length ?outputs = length (concat ips)"
    using forward_on_batches_length[OF fwd nn, of bs] cb
    by (simp del: length_concat)
  let ?cs = "map length ips"
  let ?rds = "map (\<lambda>x. \<lparr>rd_verbs = [], rd_words = None\<rparr>) inputs"
  have q1: "length ?rds = length inputs" by simp
  have q2: "0 + length ?cs = length inputs" using ips by simp
  have q3: "0 + sum_list ?cs \<le> length ?outputs" using lo by (simp add: length_concat)
  from sentence_loop_result[OF q1 q2 q3, of tok] obtain rds' where
    s1: "sentence_loop tok inputs ?outputs (enumerate 0 ?cs) (0, ?rds) = Inr rds'"
    and s2: "length rds' = length ?rds"
    and s4: "\<forall>k<length ?cs.
              rd_verbs (rds' ! (0 + k)) =
                rd_verbs (?rds ! (0 + k)) @
                map make_verb_dict (take (?cs ! k) (drop (0 + sum_list (take k ?cs)) ?outputs)) \<and>
              (?cs ! k = 0 \<longrightarrow>
                 rds' ! (0 + k) = (?rds ! (0 + k))\<lparr>rd_words := Some (Tokens (tok (inputs ! (0 + k))))\<rparr>)"
    by blast
  have a: "predict_batch_json tok tti fwd inputs = Inr (sanitize rds')"
    by (simp only: predict_batch_json_def Let_def ips[symmetric] False if_False mb s1 sum.case)
  have b: "length (sanitize rds') = length inputs" using s2 by (simp add: sanitize_def)
  have d: "\<exists>bs. make_batches (concat ips) (length inputs) = Inr bs \<and>
            concat bs = map Some (concat ips) \<and> ?outputs = forward_on_batches fwd bs"
    using mb cb by blast
  have li: "length ips = length inputs" using ips by simp
  have e: "rd_verbs (sanitize rds' ! i) =
         map make_verb_dict
           (take (length (ips ! i)) (drop (sum_list (map length (take i ips))) ?outputs))"
    if "i < length inputs" for i
  proof -
    have "rd_verbs (rds' ! i) =
            rd_verbs (?rds ! i) @
            map make_verb_dict (take (?cs ! i) (drop (sum_list (take i ?cs)) ?outputs))"
      using s4 that li by simp
    then have "rd_verbs (rds' ! i) =
            map make_verb_dict
              (take (length (ips ! i)) (drop (sum_list (map length (take i ips))) ?outputs))"
      using that li by (simp add: take_map)
    then show ?thesis using that s2 by (simp add: sanitize_def)
  qed
  have f: "sanitize rds' ! i = \<lparr>rd_verbs = [], rd_words = Some (Strings (map tok_text (tok (inputs ! i))))\<rparr>"
    if "i < length inputs" and "ips ! i = []" for i
  proof -
    have "?cs ! i = 0" using that li by simp
    then have "rds' ! i = (?rds ! i)\<lparr>rd_words := Some (Tokens (tok (inputs ! i)))\<rparr>"
      using s4 that(1) li by simp
    then show ?thesis using that(1) s2 by (simp add: sanitize_def)
  qed
  show ?thesis
    by (rule that[of "sanitize rds'" ?outputs]) (use a b lo d e f in simp_all)
qed

subsection \<open>Regrouping keeps count and order\<close>

text \<open>
  C2. Let the model return one output per instance of a batch without padding. Then
  \<open>predict_batch_json\<close> returns one result per input sentence. With \<open>outputs\<close> the
  sequence of all model outputs, which has the length of the flattened instance list
  and comes from running the model on batches whose concatenation is that list, the
  verb list of sentence \<open>i\<close> has as many entries as the sentence has instances, and
  its entries are built, in order, from the slice of \<open>outputs\<close> that starts after the
  instances of the sentences before \<open>i\<close>; the same slice of the flattened instance
  list is the instance list of sentence \<open>i\<close> in the order of splitting.
\<close>

theorem predict_batch_json_regroups:
  assumes fwd: "\<forall>b. None \<notin> set b \<longrightarrow> length (fwd b) = length b"
  shows "\<exists>rs outputs.
           predict_batch_json tok tti fwd inputs = Inr rs \<and>
           length rs = length inputs \<and>
           length outputs = length (concat (map (sentence_to_srl_instances tok tti) inputs)) \<and>
           (concat (map (sentence_to_srl_instances tok tti) inputs) \<noteq> [] \<longrightarrow>
              (\<exists>bs. make_batches (concat (map (sentence_to_srl_instances tok tti) inputs))
                       (length inputs) = Inr bs \<and>
                    concat bs = map Some (concat (map (sentence_to_srl_instances tok tti) inputs)) \<and>
                    outputs = forward_on_batches fwd bs)) \<and>
           (\<forall>i<length inputs.
              length (rd_verbs (rs ! i)) = length (sentence_to_srl_instances tok tti (inputs ! i)) \<and>
              rd_verbs (rs ! i) =
                map make_verb_dict
                  (take (length (sentence_to_srl_instances tok tti (inputs ! i)))
                     (drop (sum_list (map length
                              (take i (map (sentence_to_srl_instances tok tti) inputs))))
                        outputs)) \<and>
              sentence_to_srl_instances tok tti (inputs ! i) =
                take (length (sentence_to_srl_instances tok tti (inputs ! i)))
                  (drop (sum_list (map length
                           (take i (map (sentence_to_srl_instances tok tti) inputs))))
                     (concat (map (sentence_to_srl_instances tok tti) inputs))))"
proof -
  define ips where "ips = map (sentence_to_srl_instances tok tti) inputs"
  show ?thesis
  proof (rule predict_batch_json_result[OF fwd ips_def])
  fix rs outputs
  assume a: "predict_batch_json tok tti fwd inputs = Inr rs"
    and b: "length rs = length inputs"
    and c: "length outputs = length (concat ips)"
    and d: "concat ips \<noteq> [] \<Longrightarrow>
       \<exists>bs. make_batches (concat ips) (length inputs) = Inr bs \<and>
            concat bs = map Some (concat ips) \<and> outputs = forward_on_batches fwd bs"
    and e: "\<And>i. i < length inputs \<Longrightarrow>
       rd_verbs (rs ! i) =
         map make_verb_dict
           (take (length (ips ! i)) (drop (sum_list (map length (take i ips))) outputs))"
  have each: "length (rd_verbs (rs ! i)) = length (ips ! i) \<and>
              rd_verbs (rs ! i) =
                map make_verb_dict
                  (take (length (ips ! i)) (drop (sum_list (map length (take i ips))) outputs)) \<and>
              ips ! i =
                take (length (ips ! i)) (drop (sum_list (map length (take i ips))) (concat ips))"
    if "i < length inputs" for i
  proof -
    let ?n = "length (ips ! i)" and ?off = "sum_list (map length (take i ips))"
    have il: "i < length ips" using that by (simp add: ips_def)
    have sl: "take ?n (drop ?off (concat ips)) = ips ! i" using il by (rule concat_slice)
    then have "length (take ?n (drop ?off (concat ips))) = ?n" by simp
    then have "?n \<le> length (concat ips) - ?off" by (simp del: length_concat)
    then have "length (take ?n (drop ?off outputs)) = ?n" using c by (simp del: length_concat)
    then have "length (rd_verbs (rs ! i)) = ?n" using e[OF that] by simp
    with e[OF that] sl show ?thesis by simp
  qed
  have nth: "ips ! i = sentence_to_srl_instances tok tti (inputs ! i)" if "i < length inputs" for i
    using that by (simp add: ips_def)
  have all: "\<forall>i<length inputs.
              length (rd_verbs (rs ! i)) = length (sentence_to_srl_instances tok tti (inputs ! i)) \<and>
              rd_verbs (rs ! i) =
                map make_verb_dict
                  (take (length (sentence_to_srl_instances tok tti (inputs ! i)))
                     (drop (sum_list (map length (take i ips))) outputs)) \<and>
              sentence_to_srl_instances tok tti (inputs ! i) =
                take (length (sentence_to_srl_instances tok tti (inputs ! i)))
                  (drop (sum_list (map length (take i ips))) (concat ips))"
  proof (intro allI impI)
    fix i assume i: "i < length inputs"
    from each[OF i] show
      "length (rd_verbs (rs ! i)) = length (sentence_to_srl_instances tok tti (inputs ! i)) \<and>
       rd_verbs (rs ! i) =
         map make_verb_dict
           (take (length (sentence_to_srl_instances tok tti (inputs ! i)))
              (drop (sum_list (map length (take i ips))) outputs)) \<and>
       sentence_to_srl_instances tok tti (inputs ! i) =
         take (length (sentence_to_srl_instances tok tti (inputs ! i)))
           (drop (sum_list (map length (take i ips))) (concat ips))"
      unfolding nth[OF i] .
  qed
  have d': "concat ips \<noteq> [] \<longrightarrow>
       (\<exists>bs. make_batches (concat ips) (length inputs) = Inr bs \<and>
            concat bs = map Some (concat ips) \<and> outputs = forward_on_batches fwd bs)"
    using d by (rule impI)
  show ?thesis
    unfolding ips_def[symmetric]
    by (rule exI[of _ rs], rule exI[of _ outputs]) (intro conjI a b c d' all)
  qed
qed

theorem predict_batch_json_regroups_witness:
  "(\<forall>b. length (example_forward_on_instances b) = length b) \<and>
   map (sentence_to_srl_instances example_tokenize example_text_to_instance)
     [''dogs'', ''run eat'', ''cats'']
     = [[], [([''run'', ''eat''], [1, 0]), ([''run'', ''eat''], [0, 1])], []] \<and>
   predict_batch_json example_tokenize example_text_to_instance example_forward_on_instances
     [''dogs'', ''run eat'', ''cats'']
     = Inr [\<lparr>rd_verbs = [], rd_words = Some (Strings [''dogs''])\<rparr>,
            \<lparr>rd_verbs =
               [\<lparr>vd_verb = ''run'', vd_description = ''[MOVE: run] eat'',
                 vd_tags = [''B-V'', ''O''], vd_frame = ''MOVE''\<rparr>,
                \<lparr>vd_verb = ''eat'', vd_description = ''run [MOVE: eat]'',
                 vd_tags = [''O'', ''B-V''], vd_frame = ''MOVE''\<rparr>],
             rd_words = Some (Strings [''run'', ''eat''])\<rparr>,
            \<lparr>rd_verbs = [], rd_words = Some (Strings [''cats''])\<rparr>]"
proof -
  have len: "\<forall>b. length (example_forward_on_instances b) = length b"
    by (simp add: example_forward_on_instances_def)
  then have h: "\<forall>b. None \<notin> set b \<longrightarrow> length (example_forward_on_instances b) = length b"
    by simp
  from predict_batch_json_regroups[OF h, of example_tokenize example_text_to_instance
      "[''dogs'', ''run eat'', ''cats'']"]
  obtain rs where
    returns: "predict_batch_json example_tokenize example_text_to_instance
                example_forward_on_instances [''dogs'', ''run eat'', ''cats''] = Inr rs"
    and count: "length rs = length [''dogs'', ''run eat'', ''cats'']"
    by (elim exE conjE)
  have split: "map (sentence_to_srl_instances example_tokenize example_text_to_instance)
     [''dogs'', ''run eat'', ''cats'']
     = [[], [([''run'', ''eat''], [1, 0]), ([''run'', ''eat''], [0, 1])], []]"
    by (simp add: sentence_to_srl_instances_def tokens_to_instances_def example_tokenize_def
        example_text_to_instance_def Let_def)
  have run: "predict_batch_json example_tokenize example_text_to_instance example_forward_on_instances
     [''dogs'', ''run eat'', ''cats'']
     = Inr [\<lparr>rd_verbs = [], rd_words = Some (Strings [''dogs''])\<rparr>,
            \<lparr>rd_verbs =
               [\<lparr>vd_verb = ''run'', vd_description = ''[MOVE: run] eat'',
                 vd_tags = [''B-V'', ''O''], vd_frame = ''MOVE''\<rparr>,
                \<lparr>vd_verb = ''eat'', vd_description = ''run [MOVE: eat]'',
                 vd_tags = [''O'', ''B-V''], vd_frame = ''MOVE''\<rparr>],
             rd_words = Some (Strings [''run'', ''eat''])\<rparr>,
            \<lparr>rd_verbs = [], rd_words = Some (Strings [''cats''])\<rparr>]"
    unfolding predict_batch_json_def Let_def split
    by (simp add: make_batches_def group_by_count.simps forward_on_batches_def
        example_forward_on_instances_def example_tokenize_def getitem_def sanitize_def
        make_verb_dict_def make_srl_string_def srl_step_def flush_def replace_def Let_def)
  from returns run count have "length rs = 3" by simp
  with len split run show ?thesis by simp
qed

subsection \<open>Sentences without a verb\<close>

text \<open>
  C7. Let the model return one output per instance of a batch without padding, and let
  no token of sentence \<open>i\<close> have the category VERB. Then the sentence has no instance,
  so it adds nothing to the flattened instance list from which the batches are made;
  \<open>predict_batch_json\<close> returns a result list, not an exception, and the result of
  sentence \<open>i\<close> is the texts of its tokens with an empty verb list.
\<close>

theorem predict_batch_json_no_verbs:
  assumes fwd: "\<forall>b. None \<notin> set b \<longrightarrow> length (fwd b) = length b"
    and i: "i < length inputs"
    and nv: "\<forall>t\<in>set (tok (inputs ! i)). pos_tag t \<noteq> ''VERB''"
  shows "sentence_to_srl_instances tok tti (inputs ! i) = [] \<and>
         (\<exists>rs. predict_batch_json tok tti fwd inputs = Inr rs \<and>
               length rs = length inputs \<and>
               rs ! i = \<lparr>rd_verbs = [],
                         rd_words = Some (Strings (map tok_text (tok (inputs ! i))))\<rparr>)"
proof -
  define ips where "ips = map (sentence_to_srl_instances tok tti) inputs"
  have none: "sentence_to_srl_instances tok tti (inputs ! i) = []"
    unfolding sentence_to_srl_instances_def using nv by (rule tokens_to_instances_no_verb)
  then have empty: "ips ! i = []" using i by (simp add: ips_def)
  have "\<exists>rs. predict_batch_json tok tti fwd inputs = Inr rs \<and>
               length rs = length inputs \<and>
               rs ! i = \<lparr>rd_verbs = [],
                         rd_words = Some (Strings (map tok_text (tok (inputs ! i))))\<rparr>"
  proof (rule predict_batch_json_result[OF fwd ips_def])
    fix rs
    assume a: "predict_batch_json tok tti fwd inputs = Inr rs"
      and b: "length rs = length inputs"
      and f: "\<And>i. i < length inputs \<Longrightarrow> ips ! i = [] \<Longrightarrow>
                rs ! i = \<lparr>rd_verbs = [], rd_words = Some (Strings (map tok_text (tok (inputs ! i))))\<rparr>"
    from a b f[OF i empty] show ?thesis by (intro exI[of _ rs] conjI)
  qed
  with none show ?thesis by (rule conjI)
qed

theorem predict_batch_json_no_verbs_witness:
  "(\<forall>b. length (example_forward_on_instances b) = length b) \<and>
   (0::nat) < length [''dogs'', ''run eat''] \<and>
   map pos_tag (example_tokenize ([''dogs'', ''run eat''] ! 0)) = [''NOUN''] \<and>
   sentence_to_srl_instances example_tokenize example_text_to_instance ''dogs'' = [] \<and>
   map_sum id (\<lambda>rs. rs ! 0)
     (predict_batch_json example_tokenize example_text_to_instance example_forward_on_instances
        [''dogs'', ''run eat''])
     = Inr \<lparr>rd_verbs = [], rd_words = Some (Strings [''dogs''])\<rparr>"
proof -
  have len: "\<forall>b. length (example_forward_on_instances b) = length b"
    by (simp add: example_forward_on_instances_def)
  then have h1: "\<forall>b. None \<notin> set b \<longrightarrow> length (example_forward_on_instances b) = length b"
    by simp
  have h2: "(0::nat) < length [''dogs'', ''run eat'']" by simp
  have tags: "map pos_tag (example_tokenize ([''dogs'', ''run eat''] ! 0)) = [''NOUN'']"
    by (simp add: example_tokenize_def)
  have h3: "\<forall>t\<in>set (example_tokenize ([''dogs'', ''run eat''] ! 0)). pos_tag t \<noteq> ''VERB''"
    by (simp add: example_tokenize_def)
  from predict_batch_json_no_verbs[where fwd=example_forward_on_instances and i=0
      and inputs="[''dogs'', ''run eat'']" and tok=example_tokenize
      and tti=example_text_to_instance, OF h1 h2 h3]
  obtain rs where
    none: "sentence_to_srl_instances example_tokenize example_text_to_instance
             ([''dogs'', ''run eat''] ! 0) = []"
    and returns: "predict_batch_json example_tokenize example_text_to_instance
                    example_forward_on_instances [''dogs'', ''run eat''] = Inr rs"
    and first: "rs ! 0 = \<lparr>rd_verbs = [],
                  rd_words = Some (Strings (map tok_text (example_tokenize ([''dogs'', ''run eat''] ! 0))))\<rparr>"
    by (elim exE conjE)
  have "rs ! 0 = \<lparr>rd_verbs = [], rd_words = Some (Strings [''dogs''])\<rparr>"
    using first by (simp add: example_tokenize_def)
  with len h2 tags none returns show ?thesis by simp
qed

subsection \<open>Padding never reaches the model\<close>

text \<open>
  C6. Let the model return one output per instance of a batch without padding, and let
  the input sentences have at least one instance (otherwise the model is not called).
  With the batch size of \<open>predict_batch_json\<close>, the number of input sentences, the
  batches are made without an exception, no batch holds the padding value \<open>None\<close>,
  their concatenation is the flattened instance list, and the flat sequence of model
  outputs has exactly the length of the flattened instance list. That sequence is the
  one \<open>predict_batch_json\<close> regroups.
\<close>

theorem batches_carry_no_padding:
  assumes fwd: "\<forall>b. None \<notin> set b \<longrightarrow> length (fwd b) = length b"
    and ne: "concat (map (sentence_to_srl_instances tok tti) inputs) \<noteq> []"
  shows "\<exists>bs. make_batches (concat (map (sentence_to_srl_instances tok tti) inputs))
                 (length inputs) = Inr bs \<and>
              (\<forall>b\<in>set bs. None \<notin> set b) \<and>
              concat bs = map Some (concat (map (sentence_to_srl_instances tok tti) inputs)) \<and>
              length (forward_on_batches fwd bs)
                = length (concat (map (sentence_to_srl_instances tok tti) inputs)) \<and>
              predict_batch_json tok tti fwd inputs =
                (case sentence_loop tok inputs (forward_on_batches fwd bs)
                        (enumerate 0 (map length (map (sentence_to_srl_instances tok tti) inputs)))
                        (0, map (\<lambda>x. \<lparr>rd_verbs = [], rd_words = None\<rparr>) inputs) of
                   Inl e \<Rightarrow> Inl e
                 | Inr ds \<Rightarrow> Inr (sanitize ds))"
proof -
  define flat where "flat = concat (map (sentence_to_srl_instances tok tti) inputs)"
  have fne: "flat \<noteq> []" unfolding flat_def by (rule ne)
  have "inputs \<noteq> []" using ne by (cases inputs) simp_all
  then have pos: "0 < length inputs" by simp
  show ?thesis
    unfolding flat_def[symmetric]
  proof (rule make_batches_result[OF pos fne])
    fix bs
    assume mb: "make_batches flat (length inputs) = Inr bs"
      and cb: "concat bs = map Some flat"
      and nn: "\<And>b. b \<in> set bs \<Longrightarrow> None \<notin> set b"
    have all: "\<forall>b\<in>set bs. None \<notin> set b" using nn by blast
    have "length (forward_on_batches fwd bs) = length (concat bs)"
      using fwd nn by (rule forward_on_batches_length)
    then have lo: "length (forward_on_batches fwd bs) = length flat"
      unfolding cb by simp
    have run: "predict_batch_json tok tti fwd inputs =
                (case sentence_loop tok inputs (forward_on_batches fwd bs)
                        (enumerate 0 (map length (map (sentence_to_srl_instances tok tti) inputs)))
                        (0, map (\<lambda>x. \<lparr>rd_verbs = [], rd_words = None\<rparr>) inputs) of
                   Inl e \<Rightarrow> Inl e
                 | Inr ds \<Rightarrow> Inr (sanitize ds))"
      by (simp only: predict_batch_json_def Let_def flat_def[symmetric] fne if_False mb sum.case)
    from mb all cb lo run
    show "\<exists>bs. make_batches flat (length inputs) = Inr bs \<and>
              (\<forall>b\<in>set bs. None \<notin> set b) \<and>
              concat bs = map Some flat \<and>
              length (forward_on_batches fwd bs) = length flat \<and>
              predict_batch_json tok tti fwd inputs =
                (case sentence_loop tok inputs (forward_on_batches fwd bs)
                        (enumerate 0 (map length (map (sentence_to_srl_instances tok tti) inputs)))
                        (0, map (\<lambda>x. \<lparr>rd_verbs = [], rd_words = None\<rparr>) inputs) of
                   Inl e \<Rightarrow> Inl e
                 | Inr ds \<Rightarrow> Inr (sanitize ds))"
      by (intro exI[of _ bs] conjI)
  qed
qed

theorem batches_carry_no_padding_witness:
  "(\<forall>b. length (example_forward_on_instances b) = length b) \<and>
   concat (map (sentence_to_srl_instances example_tokenize example_text_to_instance)
             [''run eat'', ''dogs'', ''run eat''])
     = [([''run'', ''eat''], [1, 0]), ([''run'', ''eat''], [0, 1]),
        ([''run'', ''eat''], [1, 0]), ([''run'', ''eat''], [0, 1])] \<and>
   group_by_count
     (map Some [([''run'', ''eat''], [1, 0 :: nat]), ([''run'', ''eat''], [0, 1]),
                ([''run'', ''eat''], [1, 0]), ([''run'', ''eat''], [0, 1])]) 3 None
     = [[Some ([''run'', ''eat''], [1, 0]), Some ([''run'', ''eat''], [0, 1]),
         Some ([''run'', ''eat''], [1, 0])],
        [Some ([''run'', ''eat''], [0, 1]), None, None]] \<and>
   make_batches
     [([''run'', ''eat''], [1, 0 :: nat]), ([''run'', ''eat''], [0, 1]),
      ([''run'', ''eat''], [1, 0]), ([''run'', ''eat''], [0, 1])] 3
     = Inr [[Some ([''run'', ''eat''], [1, 0]), Some ([''run'', ''eat''], [0, 1]),
             Some ([''run'', ''eat''], [1, 0])],
            [Some ([''run'', ''eat''], [0, 1])]] \<and>
   length (forward_on_batches example_forward_on_instances
     [[Some ([''run'', ''eat''], [1, 0]), Some ([''run'', ''eat''], [0, 1]),
       Some ([''run'', ''eat''], [1, 0])],
      [Some ([''run'', ''eat''], [0, 1])]]) = 4"
proof -
  let ?inputs = "[''run eat'', ''dogs'', ''run eat'']"
  have len: "\<forall>b. length (example_forward_on_instances b) = length b"
    by (simp add: example_forward_on_instances_def)
  then have h1: "\<forall>b. None \<notin> set b \<longrightarrow> length (example_forward_on_instances b) = length b"
    by simp
  have flat: "concat (map (sentence_to_srl_instances example_tokenize example_text_to_instance)
             ?inputs)
     = [([''run'', ''eat''], [1, 0]), ([''run'', ''eat''], [0, 1]),
        ([''run'', ''eat''], [1, 0]), ([''run'', ''eat''], [0, 1])]"
    by (simp add: sentence_to_srl_instances_def tokens_to_instances_def example_tokenize_def
        example_text_to_instance_def Let_def)
  then have h2: "concat (map (sentence_to_srl_instances example_tokenize example_text_to_instance)
             ?inputs) \<noteq> []"
    by simp
  from batches_carry_no_padding[OF h1 h2]
  obtain bs where
    mb: "make_batches (concat (map (sentence_to_srl_instances example_tokenize
             example_text_to_instance) ?inputs)) (length ?inputs) = Inr bs"
    and lo: "length (forward_on_batches example_forward_on_instances bs)
               = length (concat (map (sentence_to_srl_instances example_tokenize
                   example_text_to_instance) ?inputs))"
    by (elim exE conjE)
  have groups: "group_by_count
     (map Some [([''run'', ''eat''], [1, 0 :: nat]), ([''run'', ''eat''], [0, 1]),
                ([''run'', ''eat''], [1, 0]), ([''run'', ''eat''], [0, 1])]) 3 None
     = [[Some ([''run'', ''eat''], [1, 0]), Some ([''run'', ''eat''], [0, 1]),
         Some ([''run'', ''eat''], [1, 0])],
        [Some ([''run'', ''eat''], [0, 1]), None, None]]"
    by (simp add: group_by_count.simps eval_nat_numeral)
  have batches: "make_batches
     [([''run'', ''eat''], [1, 0 :: nat]), ([''run'', ''eat''], [0, 1]),
      ([''run'', ''eat''], [1, 0]), ([''run'', ''eat''], [0, 1])] 3
     = Inr [[Some ([''run'', ''eat''], [1, 0]), Some ([''run'', ''eat''], [0, 1]),
             Some ([''run'', ''eat''], [1, 0])],
            [Some ([''run'', ''eat''], [0, 1])]]"
    unfolding make_batches_def Let_def groups by simp
  have bs: "bs = [[Some ([''run'', ''eat''], [1, 0]), Some ([''run'', ''eat''], [0, 1]),
             Some ([''run'', ''eat''], [1, 0])],
            [Some ([''run'', ''eat''], [0, 1])]]"
    using mb batches unfolding flat by (simp add: numeral_3_eq_3)
  have "length (forward_on_batches example_forward_on_instances bs) = 4"
    using lo unfolding flat by simp
  with len flat groups batches bs show ?thesis by simp
qed

end
